theory Spec2Isabelle
  imports Main "HOL-Library.Word"
begin

unbundle bit_operations_syntax

section \<open>The kfifo ring buffer, embedded from kfifo.c and kfifo.h\<close>

text \<open>
  The C types are modelled at their widths on an LP64 target: \<open>unsigned int\<close> is a
  32-bit word, \<open>size_t\<close> a 64-bit word, \<open>unsigned char\<close> an 8-bit word. All
  arithmetic on them wraps, as unsigned C arithmetic does. A function of the source
  named \<open>__kfifo_x\<close> is the constant \<open>kfifo_x\<close> here (an identifier cannot start
  with an underscore); the struct fields \<open>in\<close>, \<open>out\<close>, \<open>mask\<close>, \<open>esize\<close>,
  \<open>data\<close> carry the prefix \<open>fifo_\<close>.

  Memory a pointer refers to is a list of bytes: the list is the object, its length
  the size of the object. Undefined behaviour of the C program (a read or write
  outside an object, a division by zero, a shift by the width of the type or more)
  is the result \<open>None\<close>.
\<close>

type_synonym u8 = "8 word"
type_synonym u32 = "32 word"
type_synonym size_t = "64 word"

subsection \<open>struct __kfifo\<close>

record kfifo =
  fifo_in :: u32
  fifo_out :: u32
  fifo_mask :: u32
  fifo_esize :: u32
  fifo_data :: "u8 list"

datatype error = EINVAL

subsection \<open>Rounding to a power of two\<close>

definition roundup_pow_of_two :: "u32 \<Rightarrow> u32" where
  "roundup_pow_of_two v0 =
     (let v = v0 - 1;
          v = v OR drop_bit 1 v;
          v = v OR drop_bit 2 v;
          v = v OR drop_bit 4 v;
          v = v OR drop_bit 8 v;
          v = v OR drop_bit 16 v;
          v = v + 1
      in v)"

definition rounddown_pow_of_two :: "u32 \<Rightarrow> u32" where
  "rounddown_pow_of_two n0 =
     (let n = n0 OR drop_bit 1 n0;
          n = n OR drop_bit 2 n;
          n = n OR drop_bit 4 n;
          n = n OR drop_bit 8 n;
          n = n OR drop_bit 16 n
      in drop_bit 1 (n + 1))"

subsection \<open>memcpy\<close>

text \<open>
  \<open>memcpy dst doff src soff n\<close> copies \<open>n\<close> bytes from offset \<open>soff\<close> of the object
  \<open>src\<close> to offset \<open>doff\<close> of the object \<open>dst\<close> and gives the new contents of
  \<open>dst\<close>; it is undefined when either range leaves its object.
\<close>

definition memcpy :: "u8 list \<Rightarrow> nat \<Rightarrow> u8 list \<Rightarrow> nat \<Rightarrow> nat \<Rightarrow> u8 list option" where
  "memcpy dst doff src soff n =
     (if doff + n \<le> length dst \<and> soff + n \<le> length src
      then Some (take doff dst @ take n (drop soff src) @ drop (doff + n) dst)
      else None)"

subsection \<open>The core: occupancy, initialisation, copy in and out\<close>

definition kfifo_unused :: "kfifo \<Rightarrow> u32" where
  "kfifo_unused fifo = (fifo_mask fifo + 1) - (fifo_in fifo - fifo_out fifo)"

text \<open>The macros \<open>kfifo_size\<close>, \<open>kfifo_len\<close>, \<open>kfifo_is_empty\<close>, \<open>kfifo_is_full\<close>,
  \<open>kfifo_reset\<close> and \<open>kfifo_reset_out\<close> of kfifo.h.\<close>

definition kfifo_size :: "kfifo \<Rightarrow> u32" where
  "kfifo_size fifo = fifo_mask fifo + 1"

definition kfifo_len :: "kfifo \<Rightarrow> u32" where
  "kfifo_len fifo = fifo_in fifo - fifo_out fifo"

definition kfifo_is_empty :: "kfifo \<Rightarrow> bool" where
  "kfifo_is_empty fifo \<longleftrightarrow> fifo_in fifo = fifo_out fifo"

definition kfifo_is_full :: "kfifo \<Rightarrow> bool" where
  "kfifo_is_full fifo \<longleftrightarrow> kfifo_len fifo > fifo_mask fifo"

definition kfifo_reset :: "kfifo \<Rightarrow> kfifo" where
  "kfifo_reset fifo = fifo\<lparr>fifo_out := 0, fifo_in := 0\<rparr>"

definition kfifo_reset_out :: "kfifo \<Rightarrow> kfifo" where
  "kfifo_reset_out fifo = fifo\<lparr>fifo_out := fifo_in fifo\<rparr>"

text \<open>
  \<open>__kfifo_init\<close> writes the fields of the fifo before it tests the size, and sets the
  mask to 0 when it refuses. The result is the fifo as the call leaves it and the
  return value: \<open>Inr ()\<close> for 0, \<open>Inl EINVAL\<close> for \<open>-EINVAL\<close>. The division
  \<open>size /= esize\<close> is carried out in \<open>size_t\<close> and is undefined for \<open>esize = 0\<close>.
\<close>

definition kfifo_init :: "kfifo \<Rightarrow> u8 list \<Rightarrow> u32 \<Rightarrow> size_t \<Rightarrow> (kfifo \<times> (error + unit)) option" where
  "kfifo_init fifo buffer size0 esize =
     (if esize = 0 then None
      else
        let size = (ucast ((ucast size0 :: size_t) div esize) :: u32);
            size = rounddown_pow_of_two size;
            fifo = fifo\<lparr>fifo_in := 0, fifo_out := 0, fifo_esize := ucast esize,
                        fifo_data := buffer\<rparr>
        in if size < 2 then Some (fifo\<lparr>fifo_mask := 0\<rparr>, Inl EINVAL)
           else Some (fifo\<lparr>fifo_mask := size - 1\<rparr>, Inr ()))"

definition kfifo_copy_in :: "kfifo \<Rightarrow> u8 list \<Rightarrow> u32 \<Rightarrow> u32 \<Rightarrow> kfifo option" where
  "kfifo_copy_in fifo src len0 off0 =
     (let size = fifo_mask fifo + 1;
          esize = fifo_esize fifo;
          off = off0 AND fifo_mask fifo;
          (off, size, len) =
            (if esize \<noteq> 1 then (off * esize, size * esize, len0 * esize)
             else (off, size, len0));
          l = min len (size - off)
      in case memcpy (fifo_data fifo) (unat off) src 0 (unat l) of
           None \<Rightarrow> None
         | Some d1 \<Rightarrow>
             (case memcpy d1 0 src (unat l) (unat (len - l)) of
                None \<Rightarrow> None
              | Some d2 \<Rightarrow> Some (fifo\<lparr>fifo_data := d2\<rparr>)))"

definition kfifo_in :: "kfifo \<Rightarrow> u8 list \<Rightarrow> u32 \<Rightarrow> (kfifo \<times> u32) option" where
  "kfifo_in fifo buf len0 =
     (let l = kfifo_unused fifo;
          len = (if len0 > l then l else len0)
      in case kfifo_copy_in fifo buf len (fifo_in fifo) of
           None \<Rightarrow> None
         | Some fifo' \<Rightarrow> Some (fifo'\<lparr>fifo_in := fifo_in fifo' + len\<rparr>, len))"

text \<open>Copying out gives the new contents of the destination object \<open>dst\<close>.\<close>

definition kfifo_copy_out :: "kfifo \<Rightarrow> u8 list \<Rightarrow> u32 \<Rightarrow> u32 \<Rightarrow> u8 list option" where
  "kfifo_copy_out fifo dst len0 off0 =
     (let size = fifo_mask fifo + 1;
          esize = fifo_esize fifo;
          off = off0 AND fifo_mask fifo;
          (off, size, len) =
            (if esize \<noteq> 1 then (off * esize, size * esize, len0 * esize)
             else (off, size, len0));
          l = min len (size - off)
      in case memcpy dst 0 (fifo_data fifo) (unat off) (unat l) of
           None \<Rightarrow> None
         | Some d1 \<Rightarrow> memcpy d1 (unat l) (fifo_data fifo) 0 (unat (len - l)))"

definition kfifo_out_peek :: "kfifo \<Rightarrow> u8 list \<Rightarrow> u32 \<Rightarrow> (u8 list \<times> u32) option" where
  "kfifo_out_peek fifo buf len0 =
     (let l = fifo_in fifo - fifo_out fifo;
          len = (if len0 > l then l else len0)
      in case kfifo_copy_out fifo buf len (fifo_out fifo) of
           None \<Rightarrow> None
         | Some buf' \<Rightarrow> Some (buf', len))"

definition kfifo_out :: "kfifo \<Rightarrow> u8 list \<Rightarrow> u32 \<Rightarrow> (kfifo \<times> u8 list \<times> u32) option" where
  "kfifo_out fifo buf len0 =
     (case kfifo_out_peek fifo buf len0 of
        None \<Rightarrow> None
      | Some (buf', len) \<Rightarrow> Some (fifo\<lparr>fifo_out := fifo_out fifo + len\<rparr>, buf', len))"

subsection \<open>The record layer\<close>

text \<open>\<open>1 << (recsize << 3)\<close> is a shift of the \<open>int\<close> 1: undefined from 31 bits on.\<close>

definition kfifo_max_r :: "u32 \<Rightarrow> size_t \<Rightarrow> u32 option" where
  "kfifo_max_r len recsize =
     (if unat (push_bit 3 recsize) < 31
      then let max = (push_bit (unat (push_bit 3 recsize)) 1 :: u32) - 1
           in Some (if len > max then max else len)
      else None)"

definition KFIFO_PEEK :: "u8 list \<Rightarrow> u32 \<Rightarrow> u32 \<Rightarrow> u8 option" where
  "KFIFO_PEEK data out msk =
     (if unat (out AND msk) < length data then Some (data ! unat (out AND msk)) else None)"

definition kfifo_peek_n :: "kfifo \<Rightarrow> size_t \<Rightarrow> u32 option" where
  "kfifo_peek_n fifo recsize =
     (case KFIFO_PEEK (fifo_data fifo) (fifo_out fifo) (fifo_mask fifo) of
        None \<Rightarrow> None
      | Some b0 \<Rightarrow>
          if recsize - 1 \<noteq> 0
          then (case KFIFO_PEEK (fifo_data fifo) (fifo_out fifo + 1) (fifo_mask fifo) of
                  None \<Rightarrow> None
                | Some b1 \<Rightarrow> Some (ucast b0 OR push_bit 8 (ucast b1)))
          else Some (ucast b0))"

definition KFIFO_POKE :: "u8 list \<Rightarrow> u32 \<Rightarrow> u32 \<Rightarrow> u32 \<Rightarrow> u8 list option" where
  "KFIFO_POKE data i msk val =
     (if unat (i AND msk) < length data
      then Some (data[unat (i AND msk) := ucast val]) else None)"

definition kfifo_poke_n :: "kfifo \<Rightarrow> u32 \<Rightarrow> size_t \<Rightarrow> kfifo option" where
  "kfifo_poke_n fifo n recsize =
     (case KFIFO_POKE (fifo_data fifo) (fifo_in fifo) (fifo_mask fifo) n of
        None \<Rightarrow> None
      | Some d1 \<Rightarrow>
          if recsize > 1
          then (case KFIFO_POKE d1 (fifo_in fifo + 1) (fifo_mask fifo) (drop_bit 8 n) of
                  None \<Rightarrow> None
                | Some d2 \<Rightarrow> Some (fifo\<lparr>fifo_data := d2\<rparr>))
          else Some (fifo\<lparr>fifo_data := d1\<rparr>))"

definition kfifo_len_r :: "kfifo \<Rightarrow> size_t \<Rightarrow> u32 option" where
  "kfifo_len_r fifo recsize = kfifo_peek_n fifo recsize"

text \<open>
  In \<open>__kfifo_in_r\<close> the sums \<open>len + recsize\<close> and \<open>fifo->in + recsize\<close> are
  computed in \<open>size_t\<close>; the offset and the new index are cut back to 32 bits.
\<close>

definition kfifo_in_r :: "kfifo \<Rightarrow> u8 list \<Rightarrow> u32 \<Rightarrow> size_t \<Rightarrow> (kfifo \<times> u32) option" where
  "kfifo_in_r fifo buf len recsize =
     (if (ucast len :: size_t) + recsize > ucast (kfifo_unused fifo) then Some (fifo, 0)
      else case kfifo_poke_n fifo len recsize of
             None \<Rightarrow> None
           | Some fifo1 \<Rightarrow>
               (case kfifo_copy_in fifo1 buf len (ucast ((ucast (fifo_in fifo1) :: size_t) + recsize)) of
                  None \<Rightarrow> None
                | Some fifo2 \<Rightarrow>
                    Some (fifo2\<lparr>fifo_in :=
                            ucast ((ucast (fifo_in fifo2) :: size_t) + ((ucast len :: size_t) + recsize))\<rparr>,
                          len)))"

text \<open>\<open>kfifo_out_copy_r\<close> gives the destination, the count copied and the record length \<open>*n\<close>.\<close>

definition kfifo_out_copy_r :: "kfifo \<Rightarrow> u8 list \<Rightarrow> u32 \<Rightarrow> size_t \<Rightarrow> (u8 list \<times> u32 \<times> u32) option" where
  "kfifo_out_copy_r fifo buf len0 recsize =
     (case kfifo_peek_n fifo recsize of
        None \<Rightarrow> None
      | Some n \<Rightarrow>
          (let len = (if len0 > n then n else len0)
           in case kfifo_copy_out fifo buf len (ucast ((ucast (fifo_out fifo) :: size_t) + recsize)) of
                None \<Rightarrow> None
              | Some buf' \<Rightarrow> Some (buf', len, n)))"

definition kfifo_out_peek_r :: "kfifo \<Rightarrow> u8 list \<Rightarrow> u32 \<Rightarrow> size_t \<Rightarrow> (u8 list \<times> u32) option" where
  "kfifo_out_peek_r fifo buf len recsize =
     (if fifo_in fifo = fifo_out fifo then Some (buf, 0)
      else case kfifo_out_copy_r fifo buf len recsize of
             None \<Rightarrow> None
           | Some (buf', len', n) \<Rightarrow> Some (buf', len'))"

definition kfifo_out_r :: "kfifo \<Rightarrow> u8 list \<Rightarrow> u32 \<Rightarrow> size_t \<Rightarrow> (kfifo \<times> u8 list \<times> u32) option" where
  "kfifo_out_r fifo buf len recsize =
     (if fifo_in fifo = fifo_out fifo then Some (fifo, buf, 0)
      else case kfifo_out_copy_r fifo buf len recsize of
             None \<Rightarrow> None
           | Some (buf', len', n) \<Rightarrow>
               Some (fifo\<lparr>fifo_out :=
                       ucast ((ucast (fifo_out fifo) :: size_t) + ((ucast n :: size_t) + recsize))\<rparr>,
                     buf', len'))"

definition kfifo_skip_r :: "kfifo \<Rightarrow> size_t \<Rightarrow> kfifo option" where
  "kfifo_skip_r fifo recsize =
     (case kfifo_peek_n fifo recsize of
        None \<Rightarrow> None
      | Some n \<Rightarrow>
          Some (fifo\<lparr>fifo_out :=
                  ucast ((ucast (fifo_out fifo) :: size_t) + ((ucast n :: size_t) + recsize))\<rparr>))"

section \<open>Notions used to state the properties\<close>

text \<open>
  The invariants of the data model. \<open>kfifo_geom\<close>: the element size is not 0, the
  capacity in bytes fits an \<open>unsigned int\<close> and the buffer holds that many bytes.
  \<open>kfifo_wf\<close> adds that the capacity \<open>mask + 1\<close> is a power of two, at least 2, and
  that the occupancy \<open>in - out\<close> does not exceed it.
\<close>

definition kfifo_geom :: "kfifo \<Rightarrow> bool" where
  "kfifo_geom f \<longleftrightarrow>
     fifo_esize f \<noteq> 0 \<and>
     (unat (fifo_mask f) + 1) * unat (fifo_esize f) < 2 ^ 32 \<and>
     (unat (fifo_mask f) + 1) * unat (fifo_esize f) \<le> length (fifo_data f)"

definition kfifo_wf :: "kfifo \<Rightarrow> bool" where
  "kfifo_wf f \<longleftrightarrow>
     kfifo_geom f \<and>
     (\<exists>k \<in> {1..<32}. fifo_mask f = 2 ^ k - 1) \<and>
     unat (kfifo_len f) \<le> unat (fifo_mask f) + 1"

text \<open>
  Reading \<open>n\<close> bytes from, and writing the bytes \<open>bs\<close> to, a ring of \<open>c\<close> bytes at
  the front of \<open>d\<close>, starting at offset \<open>off\<close>: the two segments of the copy.
\<close>

definition ring_read :: "'a list \<Rightarrow> nat \<Rightarrow> nat \<Rightarrow> nat \<Rightarrow> 'a list" where
  "ring_read d c off n = take (min n (c - off)) (drop off d) @ take (n - min n (c - off)) d"

definition ring_write :: "'a list \<Rightarrow> nat \<Rightarrow> nat \<Rightarrow> 'a list \<Rightarrow> 'a list" where
  "ring_write d c off bs =
     (let n = length bs; l = min n (c - off);
          d1 = take off d @ take l bs @ drop (off + l) d
      in take (n - l) (drop l bs) @ drop (n - l) d1)"

text \<open>The queued bytes, oldest first.\<close>

definition kfifo_contents :: "kfifo \<Rightarrow> u8 list" where
  "kfifo_contents f =
     ring_read (fifo_data f) ((unat (fifo_mask f) + 1) * unat (fifo_esize f))
       (unat (fifo_out f AND fifo_mask f) * unat (fifo_esize f))
       (unat (kfifo_len f) * unat (fifo_esize f))"

text \<open>The buffer after \<open>__kfifo_poke_n\<close> has stored the header of a record of length \<open>n\<close>.\<close>

definition rec_hdr_write :: "kfifo \<Rightarrow> u32 \<Rightarrow> size_t \<Rightarrow> u8 list" where
  "rec_hdr_write f n recsize =
     (if recsize > 1
      then (fifo_data f)[unat (fifo_in f AND fifo_mask f) := ucast n,
                         unat ((fifo_in f + 1) AND fifo_mask f) := ucast (drop_bit 8 n)]
      else (fifo_data f)[unat (fifo_in f AND fifo_mask f) := ucast n])"

text \<open>
  A sequence of \<open>__kfifo_in\<close> calls, each with its source buffer and count, giving the
  counts returned; and a sequence of \<open>__kfifo_out\<close> calls, each with its destination
  buffer and count, giving each destination as the call leaves it and the count returned.
\<close>

fun kfifo_in_seq :: "kfifo \<Rightarrow> (u8 list \<times> u32) list \<Rightarrow> (kfifo \<times> u32 list) option" where
  "kfifo_in_seq f [] = Some (f, [])"
| "kfifo_in_seq f ((buf, len) # xs) =
     (case kfifo_in f buf len of
        None \<Rightarrow> None
      | Some (f', r) \<Rightarrow>
          (case kfifo_in_seq f' xs of
             None \<Rightarrow> None
           | Some (f'', rs) \<Rightarrow> Some (f'', r # rs)))"

fun kfifo_out_seq :: "kfifo \<Rightarrow> (u8 list \<times> u32) list \<Rightarrow> (kfifo \<times> (u8 list \<times> u32) list) option" where
  "kfifo_out_seq f [] = Some (f, [])"
| "kfifo_out_seq f ((buf, len) # xs) =
     (case kfifo_out f buf len of
        None \<Rightarrow> None
      | Some (f', buf', r) \<Rightarrow>
          (case kfifo_out_seq f' xs of
             None \<Rightarrow> None
           | Some (f'', rs) \<Rightarrow> Some (f'', (buf', r) # rs)))"

section \<open>Lists as rings, the two-segment copy and word arithmetic\<close>

lemma length_ring_read:
  assumes "off < c" "c \<le> length d" "n \<le> c"
  shows "length (ring_read d c off n) = n"
  using assms by (auto simp: ring_read_def min_def)

lemma nth_ring_read_plain:
  assumes "off < c" "c \<le> length d" "n \<le> c" "i < n"
  shows "ring_read d c off n ! i =
     (if i < min n (c - off) then d ! (off + i) else d ! (i - min n (c - off)))"
proof -
  have "length (take (min n (c - off)) (drop off d)) = min n (c - off)"
    using assms by simp
  then show ?thesis
    using assms unfolding ring_read_def nth_append by simp
qed

lemma nth_ring_read:
  assumes "off < c" "c \<le> length d" "n \<le> c" "i < n"
  shows "ring_read d c off n ! i = d ! ((off + i) mod c)"
proof (cases "i < c - off")
  case True
  then have "(off + i) mod c = off + i" by simp
  with True assms show ?thesis
    by (simp add: nth_ring_read_plain)
next
  case False
  then have "(off + i) mod c = off + i - c"
    using assms by (simp add: le_mod_geq)
  moreover have "min n (c - off) = c - off" using False assms by simp
  moreover have "i - (c - off) = off + i - c" using False assms by simp
  ultimately show ?thesis using False assms
    by (simp add: nth_ring_read_plain)
qed

lemma length_ring_write:
  assumes "off < c" "c \<le> length d" "length bs \<le> c"
  shows "length (ring_write d c off bs) = length d"
  using assms by (auto simp: ring_write_def Let_def min_def)

lemma nth_ring_write_plain:
  assumes "off < c" "c \<le> length d" "length bs \<le> c" "j < length d"
  shows "ring_write d c off bs ! j =
     (if j < length bs - min (length bs) (c - off) then bs ! (min (length bs) (c - off) + j)
      else if off \<le> j \<and> j < off + min (length bs) (c - off) then bs ! (j - off)
      else d ! j)"
  using assms
  by (auto simp: ring_write_def Let_def nth_append min_def)

lemma nth_ring_write:
  assumes "off < c" "c \<le> length d" "length bs \<le> c" "k < c"
  shows "ring_write d c off bs ! ((off + k) mod c) =
     (if k < length bs then bs ! k else d ! ((off + k) mod c))"
proof (cases "k < c - off")
  case True
  then have m: "(off + k) mod c = off + k" by simp
  show ?thesis using True assms
    unfolding m by (subst nth_ring_write_plain) (auto simp: min_def)
next
  case False
  then have m: "(off + k) mod c = off + k - c"
    using assms by (simp add: le_mod_geq)
  show ?thesis using False assms
    unfolding m by (subst nth_ring_write_plain) (auto simp: min_def)
qed

lemma nth_ring_write_beyond:
  assumes "off < c" "c \<le> length d" "length bs \<le> c" "c \<le> j" "j < length d"
  shows "ring_write d c off bs ! j = d ! j"
  using assms by (subst nth_ring_write_plain) (auto simp: min_def)


lemma memcpy_out_two_seg:
  assumes "off < c" "c \<le> length d" "n \<le> c" "n \<le> length dst" "l = min n (c - off)"
  shows "memcpy dst 0 d off l = Some (take l (drop off d) @ drop l dst)"
    and "memcpy (take l (drop off d) @ drop l dst) l d 0 (n - l) = Some (ring_read d c off n @ drop n dst)"
proof -
  have l: "l \<le> n" "off + l \<le> length d" "l \<le> length dst" "l \<le> length d - off"
    using assms by auto
  show "memcpy dst 0 d off l = Some (take l (drop off d) @ drop l dst)"
    using l by (simp add: memcpy_def)
  have "n - l \<le> length d" using assms by auto
  moreover have "length (take l (drop off d)) = l" using l by simp
  ultimately show "memcpy (take l (drop off d) @ drop l dst) l d 0 (n - l)
      = Some (ring_read d c off n @ drop n dst)"
    using l assms(4,5) by (simp add: memcpy_def ring_read_def)
qed

lemma memcpy_in_two_seg:
  assumes "off < c" "c \<le> length d" "n \<le> c" "n \<le> length src" "l = min n (c - off)"
  shows "memcpy d off src 0 l = Some (take off d @ take l src @ drop (off + l) d)"
    and "memcpy (take off d @ take l src @ drop (off + l) d) 0 src l (n - l)
           = Some (ring_write d c off (take n src))"
proof -
  have l: "l \<le> n" "off + l \<le> length d" "l \<le> length src" "l + (n - l) \<le> length src"
    using assms by auto
  show "memcpy d off src 0 l = Some (take off d @ take l src @ drop (off + l) d)"
    using l by (simp add: memcpy_def)
  have len: "length (take off d @ take l src @ drop (off + l) d) = length d"
    using l assms by simp
  have "n - l \<le> length d" using assms by auto
  moreover have "length (take n src) = n" using assms by simp
  moreover have "take l (take n src) = take l src" using l by (simp add: min_absorb1)
  moreover have "drop l (take n src) = take (n - l) (drop l src)" by (simp add: drop_take)
  ultimately show "memcpy (take off d @ take l src @ drop (off + l) d) 0 src l (n - l)
           = Some (ring_write d c off (take n src))"
    using l assms(5) unfolding memcpy_def ring_write_def Let_def len by simp
qed


lemma copy_scale:
  fixes off size len esize :: u32
  shows "(if esize \<noteq> 1 then (off * esize, size * esize, len * esize) else (off, size, len))
     = (off * esize, size * esize, len * esize)"
  by simp

lemma unat_min: "unat (min (a::u32) b) = min (unat a) (unat b)"
  by (simp add: min_def word_le_nat_alt)

lemma geom_words:
  fixes f :: kfifo and len off0 :: u32
  assumes g: "kfifo_geom f" and len: "unat len \<le> unat (fifo_mask f) + 1"
  defines "es \<equiv> unat (fifo_esize f)"
  defines "c \<equiv> (unat (fifo_mask f) + 1) * es"
  defines "off \<equiv> (off0 AND fifo_mask f) * fifo_esize f"
  defines "sz \<equiv> (fifo_mask f + 1) * fifo_esize f"
  defines "lenb \<equiv> len * fifo_esize f"
  shows "unat off = unat (off0 AND fifo_mask f) * es"
    and "unat sz = c"
    and "unat lenb = unat len * es"
    and "unat off < c"
    and "unat (min lenb (sz - off)) = min (unat len * es) (c - unat off)"
    and "unat (lenb - min lenb (sz - off)) = unat len * es - min (unat len * es) (c - unat off)"
proof -
  have es: "0 < es" using g by (simp add: kfifo_geom_def es_def unat_gt_0)
  have c: "c < 2 ^ 32" "c \<le> length (fifo_data f)"
    using g by (simp_all add: kfifo_geom_def c_def es_def)
  have "(unat (fifo_mask f) + 1) * 1 \<le> (unat (fifo_mask f) + 1) * es"
    using es by (intro mult_le_mono2) simp
  then have cap: "unat (fifo_mask f) + 1 \<le> c" by (simp add: c_def)
  then have m1: "unat (fifo_mask f + 1) = unat (fifo_mask f) + 1"
    using c by (simp add: unat_word_ariths)
  have am: "unat (off0 AND fifo_mask f) \<le> unat (fifo_mask f)"
    by (simp add: word_and_le1 flip: word_le_nat_alt)
  then have "unat (off0 AND fifo_mask f) * es \<le> unat (fifo_mask f) * es"
    by (rule mult_le_mono1)
  moreover have "unat (fifo_mask f) * es < c"
    using es by (simp add: c_def)
  ultimately have oc: "unat (off0 AND fifo_mask f) * es < c"
    by (rule le_less_trans)
  then have "unat (off0 AND fifo_mask f) * unat (fifo_esize f) < 2 ^ LENGTH(32)"
    using c by (simp add: es_def)
  then show o: "unat off = unat (off0 AND fifo_mask f) * es"
    unfolding off_def es_def by (simp only: unat_mult_lem)
  have "unat (fifo_mask f + 1) * unat (fifo_esize f) < 2 ^ LENGTH(32)"
    using c by (simp add: m1 c_def es_def)
  then have "unat sz = unat (fifo_mask f + 1) * unat (fifo_esize f)"
    unfolding sz_def by (simp only: unat_mult_lem)
  then show s: "unat sz = c" by (simp add: m1 c_def es_def)
  have lc: "unat len * es \<le> c" unfolding c_def using len by (rule mult_le_mono1)
  then have "unat len * unat (fifo_esize f) < 2 ^ LENGTH(32)"
    using c by (simp add: es_def)
  then show l: "unat lenb = unat len * es"
    unfolding lenb_def es_def by (simp only: unat_mult_lem)
  show "unat off < c" using o oc by simp
  then have "off \<le> sz" by (simp add: word_le_nat_alt s)
  then have d: "unat (sz - off) = c - unat off" by (simp add: unat_sub s)
  show m: "unat (min lenb (sz - off)) = min (unat len * es) (c - unat off)"
    by (simp add: unat_min d l)
  have "min lenb (sz - off) \<le> lenb" by simp
  then show "unat (lenb - min lenb (sz - off)) = unat len * es - min (unat len * es) (c - unat off)"
    by (simp only: unat_sub m l)
qed

lemma kfifo_copy_in_ring:
  assumes "kfifo_geom f" "unat len \<le> unat (fifo_mask f) + 1"
    "unat len * unat (fifo_esize f) \<le> length src"
  shows "kfifo_copy_in f src len off =
     Some (f\<lparr>fifo_data := ring_write (fifo_data f)
              ((unat (fifo_mask f) + 1) * unat (fifo_esize f))
              (unat (off AND fifo_mask f) * unat (fifo_esize f))
              (take (unat len * unat (fifo_esize f)) src)\<rparr>)"
proof -
  note w = geom_words [OF assms(1,2)]
  have c: "(unat (fifo_mask f) + 1) * unat (fifo_esize f) \<le> length (fifo_data f)"
    using assms(1) by (simp add: kfifo_geom_def)
  have lc: "unat len * unat (fifo_esize f) \<le> (unat (fifo_mask f) + 1) * unat (fifo_esize f)"
    using assms(2) by (rule mult_le_mono1)
  note m = memcpy_in_two_seg [OF w(4) c lc assms(3) refl, unfolded w(1)]
  show ?thesis
    by (simp only: kfifo_copy_in_def Let_def copy_scale prod.case w m option.case)
qed

lemma kfifo_copy_out_ring:
  assumes "kfifo_geom f" "unat len \<le> unat (fifo_mask f) + 1"
    "unat len * unat (fifo_esize f) \<le> length dst"
  shows "kfifo_copy_out f dst len off =
     Some (ring_read (fifo_data f)
              ((unat (fifo_mask f) + 1) * unat (fifo_esize f))
              (unat (off AND fifo_mask f) * unat (fifo_esize f))
              (unat len * unat (fifo_esize f))
           @ drop (unat len * unat (fifo_esize f)) dst)"
proof -
  note w = geom_words [OF assms(1,2)]
  have c: "(unat (fifo_mask f) + 1) * unat (fifo_esize f) \<le> length (fifo_data f)"
    using assms(1) by (simp add: kfifo_geom_def)
  have lc: "unat len * unat (fifo_esize f) \<le> (unat (fifo_mask f) + 1) * unat (fifo_esize f)"
    using assms(2) by (rule mult_le_mono1)
  note m = memcpy_out_two_seg [OF w(4) c lc assms(3) refl, unfolded w(1)]
  show ?thesis
    by (simp only: kfifo_copy_out_def Let_def copy_scale prod.case w m option.case)
qed



lemma ucast_down_add: "(ucast ((a::size_t) + b) :: u32) = ucast a + ucast b"
proof -
  have "(ucast (a + b) :: u32) = of_nat (unat (a + b))"
    by (simp only: of_nat_unat)
  also have "\<dots> = of_nat ((unat a + unat b) mod 2 ^ 64)"
    by (simp add: unat_word_ariths)
  also have "\<dots> = (of_nat (unat a + unat b) :: u32)"
    by (simp only: word_of_nat_eq_iff take_bit_eq_mod) (simp add: mod_mod_cancel)
  also have "\<dots> = ucast a + ucast b"
    by (simp only: of_nat_add of_nat_unat)
  finally show ?thesis .
qed

lemma ucast_up_down: "(ucast (ucast (x::u32) :: size_t) :: u32) = x"
  by (simp add: ucast_up_ucast_id is_up)

lemma ucast_size_t_add: "(ucast ((ucast (x::u32) :: size_t) + r) :: u32) = x + ucast r"
  by (simp only: ucast_down_add ucast_up_down)

lemma ucast_size_t_add2:
  "(ucast ((ucast (x::u32) :: size_t) + ((ucast (n::u32) :: size_t) + r)) :: u32) = x + n + ucast r"
  by (simp only: ucast_down_add ucast_up_down add.assoc)

lemma unat_lt_32: "unat (x::u32) < 2 ^ 32"
  using unsigned_less [of x] by simp

lemma unat_ucast_up: "unat (ucast (x::u32) :: size_t) = unat x"
proof -
  have "unat x < 2 ^ 64" using unat_lt_32 [of x] by simp
  then show ?thesis
    by (simp add: unsigned_ucast_eq take_bit_nat_eq_self)
qed

lemma unat_len_plus_recsize:
  "recsize = 1 \<or> recsize = 2 \<Longrightarrow> unat ((ucast (len :: u32) :: size_t) + recsize) = unat len + unat recsize"
  using unat_lt_32 [of len]
  by (auto simp: unat_word_ariths unat_ucast_up) 


lemma pow2_lt_32: "k < 32 \<Longrightarrow> (2::nat) ^ k < 2 ^ 32"
  by (rule power_strict_increasing) simp_all

lemma unat_pow2_32:
  assumes "k < 32"
  shows "unat ((2 ^ k) :: u32) = 2 ^ k"
proof -
  have "(2 ^ k :: u32) = of_nat (2 ^ k)" by simp
  then have "unat ((2 ^ k) :: u32) = 2 ^ k mod 2 ^ 32"
    by (simp only: unat_of_nat) simp
  with pow2_lt_32 [OF assms] show ?thesis by simp
qed

lemma pow2_word_neq_0: "k < 32 \<Longrightarrow> (2 ^ k :: u32) \<noteq> 0"
  using unat_pow2_32 [of k] by (metis power_not_zero unat_0 zero_neq_numeral)

lemma unat_mask_k:
  assumes "k < 32"
  shows "unat ((2 ^ k - 1) :: u32) = 2 ^ k - 1"
  using assms
  by (simp add: unat_minus_one unat_pow2_32 pow2_word_neq_0)

lemma and_mask_unat:
  fixes x :: u32
  assumes "k < 32"
  shows "unat (x AND (2 ^ k - 1)) = unat x mod 2 ^ k"
proof -
  have "x AND (2 ^ k - 1) = take_bit k x"
    by (simp only: take_bit_eq_mask mask_eq_exp_minus_1)
  moreover have "unat (take_bit k x) = take_bit k (unat x)"
    by (rule unsigned_take_bit_eq)
  ultimately show ?thesis
    by (simp only: take_bit_eq_mod)
qed

lemma unat_add_mod_pow2:
  fixes x y :: u32
  assumes "k < 32"
  shows "unat (x + y) mod 2 ^ k = (unat x + unat y) mod 2 ^ k"
proof -
  have "(2::nat) ^ k dvd 2 ^ 32" using assms by (intro le_imp_power_dvd) simp
  moreover have "unat (x + y) = (unat x + unat y) mod 2 ^ 32"
    by (simp add: unat_word_ariths)
  ultimately show ?thesis
    by (simp only: mod_mod_cancel)
qed

section \<open>Rounding down to a power of two\<close>

lemma rounddown_pow_of_two_0: "rounddown_pow_of_two 0 = 0"
  by (simp add: rounddown_pow_of_two_def)

text \<open>
  The smear \<open>n |= n >> 1; \<dots>; n |= n >> 16\<close> sets every bit below the highest bit
  set. Below \<open>2^31\<close> the function is therefore right: it gives the power of two
  \<open>2^k\<close> with \<open>2^k \<le> n < 2^(k+1)\<close>. From \<open>2^31\<close> on, all 32 bits are set, the
  increment wraps, and it gives 0.
\<close>

lemma smear_step:
  fixes x :: u32
  assumes up: "\<forall>i. bit x i \<longrightarrow> i \<le> k"
    and lo: "\<forall>i. k + 1 - t \<le> i \<and> i \<le> k \<longrightarrow> bit x i"
    and m: "m \<le> t"
  shows "\<forall>i. bit (x OR drop_bit m x) i \<longrightarrow> i \<le> k"
    and "\<forall>i. k + 1 - (t + m) \<le> i \<and> i \<le> k \<longrightarrow> bit (x OR drop_bit m x) i"
proof -
  show "\<forall>i. bit (x OR drop_bit m x) i \<longrightarrow> i \<le> k"
    using up by (auto simp: bit_or_iff bit_drop_bit_eq dest: add_leD2)
  show "\<forall>i. k + 1 - (t + m) \<le> i \<and> i \<le> k \<longrightarrow> bit (x OR drop_bit m x) i"
  proof (intro allI impI)
    fix i assume i: "k + 1 - (t + m) \<le> i \<and> i \<le> k"
    show "bit (x OR drop_bit m x) i"
    proof (cases "k + 1 - t \<le> i")
      case True
      with i lo show ?thesis by (simp add: bit_or_iff)
    next
      case False
      then have "k + 1 - t \<le> m + i \<and> m + i \<le> k" using i m by auto
      with lo have "bit x (m + i)" by blast
      then show ?thesis by (simp add: bit_or_iff bit_drop_bit_eq)
    qed
  qed
qed

lemma smear_all:
  fixes n :: u32
  assumes up: "\<forall>i. bit n i \<longrightarrow> i \<le> k" and top: "bit n k"
  shows "(let n = n OR drop_bit 1 n;
              n = n OR drop_bit 2 n;
              n = n OR drop_bit 4 n;
              n = n OR drop_bit 8 n;
              n = n OR drop_bit 16 n
          in n) = mask (k + 1)"
proof -
  define n1 where "n1 = n OR drop_bit 1 n"
  define n2 where "n2 = n1 OR drop_bit 2 n1"
  define n3 where "n3 = n2 OR drop_bit 4 n2"
  define n4 where "n4 = n3 OR drop_bit 8 n3"
  define n5 where "n5 = n4 OR drop_bit 16 n4"
  have k: "k < 32" using bit_imp_le_length [OF top] by simp
  have l0: "\<forall>i. k + 1 - 1 \<le> i \<and> i \<le> k \<longrightarrow> bit n i" using top by auto
  have s1: "\<forall>i. bit n1 i \<longrightarrow> i \<le> k" "\<forall>i. k + 1 - (1 + 1) \<le> i \<and> i \<le> k \<longrightarrow> bit n1 i"
    unfolding n1_def by (rule smear_step [OF up l0], simp)+
  have s2: "\<forall>i. bit n2 i \<longrightarrow> i \<le> k" "\<forall>i. k + 1 - (1 + 1 + 2) \<le> i \<and> i \<le> k \<longrightarrow> bit n2 i"
    unfolding n2_def by (rule smear_step [OF s1], simp)+
  have s3: "\<forall>i. bit n3 i \<longrightarrow> i \<le> k" "\<forall>i. k + 1 - (1 + 1 + 2 + 4) \<le> i \<and> i \<le> k \<longrightarrow> bit n3 i"
    unfolding n3_def by (rule smear_step [OF s2], simp)+
  have s4: "\<forall>i. bit n4 i \<longrightarrow> i \<le> k" "\<forall>i. k + 1 - (1 + 1 + 2 + 4 + 8) \<le> i \<and> i \<le> k \<longrightarrow> bit n4 i"
    unfolding n4_def by (rule smear_step [OF s3], simp)+
  have s5: "\<forall>i. bit n5 i \<longrightarrow> i \<le> k" "\<forall>i. k + 1 - (1 + 1 + 2 + 4 + 8 + 16) \<le> i \<and> i \<le> k \<longrightarrow> bit n5 i"
    unfolding n5_def by (rule smear_step [OF s4], simp)+
  have "k + 1 - (1 + 1 + 2 + 4 + 8 + 16) = 0" using k by simp
  then have "\<forall>i. i \<le> k \<longrightarrow> bit n5 i" using s5(2) by simp
  with s5(1) have b: "bit n5 i \<longleftrightarrow> i \<le> k" for i by blast
  have "n5 = mask (k + 1)"
  proof (rule bit_word_eqI)
    fix i assume "i < LENGTH(32)"
    then show "bit n5 i = bit (mask (k + 1) :: u32) i"
      by (simp add: b bit_mask_iff less_Suc_eq_le)
  qed
  then show ?thesis
    by (simp only: Let_def n5_def n4_def n3_def n2_def n1_def)
qed


lemma drop_bit_1_pow2:
  assumes "k < 31"
  shows "drop_bit 1 (2 ^ (k + 1) :: u32) = 2 ^ k"
proof -
  have "unat (drop_bit 1 (2 ^ (k + 1) :: u32)) = drop_bit 1 (unat (2 ^ (k + 1) :: u32))"
    by (rule unat_drop_bit_eq)
  also have "\<dots> = unat (2 ^ (k + 1) :: u32) div 2"
    by (simp only: drop_bit_eq_div power_one_right)
  also have "unat (2 ^ (k + 1) :: u32) = 2 ^ (k + 1)"
    using assms by (intro unat_pow2_32) simp
  also have "(2::nat) ^ (k + 1) div 2 = 2 ^ k" by simp
  also have "\<dots> = unat (2 ^ k :: u32)" using assms by (simp add: unat_pow2_32)
  finally show ?thesis by (simp only: word_unat_eq_iff)
qed

lemma rounddown_pow_of_two_below_top:
  assumes pos: "0 < unat n" and lt: "unat n < 2 ^ 31"
  shows "\<exists>k<31. rounddown_pow_of_two n = 2 ^ k \<and> 2 ^ k \<le> unat n \<and> unat n < 2 ^ (k + 1)"
proof -
  from pos have "1 \<le> unat n" by simp
  from ex_power_ivl1 [OF _ this, of 2]
  obtain k where k: "2 ^ k \<le> unat n" "unat n < 2 ^ (k + 1)" by auto
  have "(2::nat) ^ k < 2 ^ 31" using k(1) lt by (rule le_less_trans)
  then have k31: "k < 31" by (rule power_less_imp_less_exp [rotated]) simp
  have b: "bit n i \<longleftrightarrow> odd (unat n div 2 ^ i)" for i
  proof -
    have "bit (unat n) i \<longleftrightarrow> bit n i" by (simp add: bit_simps)
    then show ?thesis by (simp add: bit_iff_odd)
  qed
  have up: "\<forall>i. bit n i \<longrightarrow> i \<le> k"
  proof (intro allI impI, rule ccontr)
    fix i assume "bit n i" "\<not> i \<le> k"
    then have "k + 1 \<le> i" by simp
    then have "(2::nat) ^ (k + 1) \<le> 2 ^ i" by (intro power_increasing) simp_all
    with k(2) have "unat n div 2 ^ i = 0" by simp
    with \<open>bit n i\<close> show False by (simp add: b)
  qed
  have "unat n div 2 ^ k = 1"
  proof -
    have "unat n div 2 ^ k < 2" using k(2) by (simp add: less_mult_imp_div_less)
    moreover have "0 < unat n div 2 ^ k" using k(1) by (simp add: div_greater_zero_iff)
    ultimately show ?thesis by simp
  qed
  then have top: "bit n k" by (simp add: b)
  have "rounddown_pow_of_two n = drop_bit 1 (mask (k + 1) + 1)"
    unfolding rounddown_pow_of_two_def using smear_all [OF up top]
    by (simp add: Let_def)
  also have "(mask (k + 1) :: u32) + 1 = 2 ^ (k + 1)"
    by (simp only: mask_eq_exp_minus_1) simp
  also have "drop_bit 1 (2 ^ (k + 1) :: u32) = 2 ^ k" by (rule drop_bit_1_pow2 [OF k31])
  finally show ?thesis using k k31 by blast
qed


lemma rounddown_pow_of_two_top:
  assumes "2 ^ 31 \<le> unat n"
  shows "rounddown_pow_of_two n = 0"
proof -
  have b: "bit n i \<longleftrightarrow> odd (unat n div 2 ^ i)" for i
  proof -
    have "bit (unat n) i \<longleftrightarrow> bit n i" by (simp add: bit_simps)
    then show ?thesis by (simp add: bit_iff_odd)
  qed
  have up: "\<forall>i. bit n i \<longrightarrow> i \<le> 31"
  proof (intro allI impI)
    fix i assume "bit n i"
    then have "i < 32" using bit_imp_le_length [of n i] by simp
    then show "i \<le> 31" by simp
  qed
  have "unat n div 2 ^ 31 = 1"
  proof -
    have "unat n < 2 * 2 ^ 31" using unat_lt_32 [of n] by simp
    then have "unat n div 2 ^ 31 < 2" by (simp only: less_mult_imp_div_less)
    moreover have "0 < unat n div 2 ^ 31" using assms by (simp add: div_greater_zero_iff)
    ultimately show ?thesis by simp
  qed
  then have top: "bit n 31" by (simp add: b)
  have "rounddown_pow_of_two n = drop_bit 1 (mask (31 + 1) + 1)"
    unfolding rounddown_pow_of_two_def using smear_all [OF up top]
    by (simp add: Let_def)
  moreover have "(mask (31 + 1) :: u32) = - 1"
    by (rule bit_word_eqI) (simp add: bit_simps)
  ultimately show ?thesis by simp
qed


text \<open>
  C8. \<open>rounddown_pow_of_two\<close> is to give the largest power of two not above its
  argument. At \<open>n = 2^31\<close> the smear sets every bit, \<open>n + 1\<close> wraps to 0 and the
  function gives 0, not \<open>2^31\<close>.
\<close>

theorem rounddown_pow_of_two_top_bit: "rounddown_pow_of_two 0x80000000 = 0"
  by (simp add: rounddown_pow_of_two_def)

section \<open>Initialisation\<close>


lemma init_quotient:
  "(ucast ((ucast (sz :: u32) :: size_t) div esize) :: u32) = of_nat (unat sz div unat esize)"
proof -
  have "(ucast ((ucast sz :: size_t) div esize) :: u32)
      = of_nat (unat ((ucast sz :: size_t) div esize))"
    by (simp only: of_nat_unat)
  then show ?thesis by (simp only: unat_div unat_ucast_up)
qed

lemma unat_ucast_down_small:
  assumes "unat (e :: size_t) < 2 ^ 32"
  shows "unat (ucast e :: u32) = unat e"
  using assms by (simp add: unsigned_ucast_eq take_bit_nat_eq_self)

lemma kfifo_init_result:
  assumes "esize \<noteq> 0"
  shows "kfifo_init f buffer sz esize =
      Some (if rounddown_pow_of_two (of_nat (unat sz div unat esize)) < 2
            then (\<lparr>fifo_in = 0, fifo_out = 0, fifo_mask = 0,
                    fifo_esize = ucast esize, fifo_data = buffer\<rparr>, Inl EINVAL)
            else (\<lparr>fifo_in = 0, fifo_out = 0,
                    fifo_mask = rounddown_pow_of_two (of_nat (unat sz div unat esize)) - 1,
                    fifo_esize = ucast esize, fifo_data = buffer\<rparr>, Inr ()))
     \<and> (\<not> rounddown_pow_of_two (of_nat (unat sz div unat esize)) < 2 \<longrightarrow>
           unat (ucast esize :: u32) = unat esize)"
proof -
  have "unat (ucast esize :: u32) = unat esize"
    if "\<not> rounddown_pow_of_two (of_nat (unat sz div unat esize)) < 2"
  proof -
    have "unat sz div unat esize \<noteq> 0"
    proof
      assume "unat sz div unat esize = 0"
      then have "rounddown_pow_of_two (of_nat (unat sz div unat esize)) = 0"
        by (simp add: rounddown_pow_of_two_0)
      with that show False by simp
    qed
    then have "unat esize \<le> unat sz"
      by (metis div_less linorder_not_less)
    then have "unat esize < 2 ^ 32" using unat_lt_32 [of sz] by simp
    then show ?thesis by (rule unat_ucast_down_small)
  qed
  moreover have "f\<lparr>fifo_in := 0, fifo_out := 0, fifo_esize := e, fifo_data := b, fifo_mask := m\<rparr>
      = \<lparr>fifo_in = 0, fifo_out = 0, fifo_mask = m, fifo_esize = e, fifo_data = b\<rparr>" for e b m
    by simp
  ultimately show ?thesis
    using assms by (simp add: kfifo_init_def Let_def init_quotient)
qed

text \<open>
  A fifo that \<open>__kfifo_init\<close> accepted over a buffer of at least \<open>size\<close> bytes
  satisfies the invariants, and is empty.
\<close>

lemma kfifo_init_wf:
  assumes i: "kfifo_init f buffer sz esize = Some (f', Inr ())"
    and b: "unat sz \<le> length buffer"
  shows "kfifo_wf f'" and "kfifo_is_empty f'"
proof -
  let ?q = "unat sz div unat esize"
  let ?cap = "rounddown_pow_of_two (of_nat ?q)"
  have e0: "esize \<noteq> 0" using i by (auto simp: kfifo_init_def)
  note eff = kfifo_init_result [OF e0, of f buffer sz]
  have c2: "\<not> ?cap < 2" using i eff by (auto split: if_splits)
  then have f': "f' = \<lparr>fifo_in = 0, fifo_out = 0, fifo_mask = ?cap - 1,
      fifo_esize = ucast esize, fifo_data = buffer\<rparr>"
    and es: "unat (ucast esize :: u32) = unat esize"
    using i eff by auto
  show "kfifo_is_empty f'" by (simp add: f' kfifo_is_empty_def)
  have "?q \<le> unat sz" by (rule div_le_dividend)
  then have q32: "?q < 2 ^ 32" using unat_lt_32 [of sz] by (rule le_less_trans)
  then have uq: "unat (of_nat ?q :: u32) = ?q" by (simp add: unat_of_nat)
  have "0 < ?q"
  proof (rule ccontr)
    assume "\<not> 0 < ?q"
    then have "?cap = 0" by (simp add: rounddown_pow_of_two_0)
    with c2 show False by simp
  qed
  moreover have "?q < 2 ^ 31"
  proof (rule ccontr)
    assume "\<not> ?q < 2 ^ 31"
    then have "2 ^ 31 \<le> unat (of_nat ?q :: u32)" by (simp only: uq)
    then have "?cap = 0" by (rule rounddown_pow_of_two_top)
    with c2 show False by simp
  qed
  ultimately obtain k where k: "k < 31" "?cap = 2 ^ k" "2 ^ k \<le> ?q"
    using rounddown_pow_of_two_below_top [of "of_nat ?q :: u32"] unfolding uq by blast
  have k0: "0 < k"
  proof (rule ccontr)
    assume "\<not> 0 < k"
    then have "?cap = 1" using k(2) by simp
    with c2 show False by simp
  qed
  have k32: "k < 32" using k(1) by simp
  have m: "unat (fifo_mask f') + 1 = 2 ^ k"
    by (simp add: f' k(2) unat_mask_k [OF k32])
  have ez: "0 < unat esize" using e0 by (simp add: unat_gt_0)
  have "2 ^ k * unat esize \<le> ?q * unat esize" using k(3) by (rule mult_le_mono1)
  also have "\<dots> \<le> unat sz" by (rule div_times_less_eq_dividend)
  finally have le: "2 ^ k * unat esize \<le> unat sz" .
  have g: "kfifo_geom f'"
    unfolding kfifo_geom_def m
    using le b unat_lt_32 [of sz] ez es by (simp add: f' flip: unat_gt_0)
  moreover have "\<exists>k \<in> {1..<32}. fifo_mask f' = 2 ^ k - 1"
    using k0 k32 by (intro bexI [of _ k]) (simp_all add: f' k(2))
  moreover have "unat (kfifo_len f') \<le> unat (fifo_mask f') + 1"
    by (simp add: f' kfifo_len_def)
  ultimately show "kfifo_wf f'" by (simp add: kfifo_wf_def)
qed

text \<open>
  C6, as the code has it. For an element size other than 0, \<open>__kfifo_init\<close> first
  sets both indices to 0 and records the element size and the buffer. When the capacity
  \<open>rounddown_pow_of_two (size / esize)\<close> is below 2 it then sets the mask to 0 and
  returns \<open>-EINVAL\<close>; otherwise it sets the mask to the capacity minus 1 and returns
  0, and the element size it recorded is the one passed, not a truncation of it. The
  fifo it leaves does not depend on the fifo it was given.
\<close>

theorem kfifo_init_effect:
  assumes "esize \<noteq> 0"
  shows "kfifo_init f buffer sz esize =
      Some (if rounddown_pow_of_two (of_nat (unat sz div unat esize)) < 2
            then (\<lparr>fifo_in = 0, fifo_out = 0, fifo_mask = 0,
                    fifo_esize = ucast esize, fifo_data = buffer\<rparr>, Inl EINVAL)
            else (\<lparr>fifo_in = 0, fifo_out = 0,
                    fifo_mask = rounddown_pow_of_two (of_nat (unat sz div unat esize)) - 1,
                    fifo_esize = ucast esize, fifo_data = buffer\<rparr>, Inr ()))
     \<and> (\<not> rounddown_pow_of_two (of_nat (unat sz div unat esize)) < 2 \<longrightarrow>
           unat (ucast esize :: u32) = unat esize)"
  using assms by (rule kfifo_init_result)

theorem kfifo_init_effect_witness:
  "kfifo_init \<lparr>fifo_in = 5, fifo_out = 2, fifo_mask = 3, fifo_esize = 1, fifo_data = [7]\<rparr>
       (replicate 40 0) 40 4
     = Some (\<lparr>fifo_in = 0, fifo_out = 0, fifo_mask = 7, fifo_esize = 4,
               fifo_data = replicate 40 0\<rparr>, Inr ())
   \<and> kfifo_init \<lparr>fifo_in = 5, fifo_out = 2, fifo_mask = 3, fifo_esize = 1, fifo_data = [7]\<rparr>
       (replicate 7 0) 7 4
     = Some (\<lparr>fifo_in = 0, fifo_out = 0, fifo_mask = 0, fifo_esize = 4,
               fifo_data = replicate 7 0\<rparr>, Inl EINVAL)"
  using kfifo_init_effect [of 4 "\<lparr>fifo_in = 5, fifo_out = 2, fifo_mask = 3, fifo_esize = 1, fifo_data = [7]\<rparr>" "replicate 40 0" 40]
    kfifo_init_effect [of 4 "\<lparr>fifo_in = 5, fifo_out = 2, fifo_mask = 3, fifo_esize = 1, fifo_data = [7]\<rparr>" "replicate 7 0" 7]
  by (simp add: rounddown_pow_of_two_def)

text \<open>
  C6 as stated fails: a refused initialisation does write the fifo. Here a fifo with
  indices 5 and 2 and mask 7 is given a one-byte buffer; the call returns \<open>-EINVAL\<close>
  and leaves indices 0, mask 0 and the new buffer.
\<close>

theorem kfifo_init_failure_writes_fifo:
  "kfifo_init \<lparr>fifo_in = 5, fifo_out = 2, fifo_mask = 7, fifo_esize = 1,
               fifo_data = [1, 2, 3, 4, 5, 6, 7, 8]\<rparr> [9] 1 1
     = Some (\<lparr>fifo_in = 0, fifo_out = 0, fifo_mask = 0, fifo_esize = 1, fifo_data = [9]\<rparr>,
             Inl EINVAL)
   \<and> \<lparr>fifo_in = 0, fifo_out = 0, fifo_mask = 0, fifo_esize = 1, fifo_data = [9]\<rparr>
     \<noteq> \<lparr>fifo_in = 5, fifo_out = 2, fifo_mask = 7, fifo_esize = 1,
          fifo_data = [1, 2, 3, 4, 5, 6, 7, 8]\<rparr>"
  by (simp add: kfifo_init_def rounddown_pow_of_two_def)


section \<open>Reading the record header\<close>

lemma KFIFO_PEEK_in_range:
  assumes "unat msk < length d"
  shows "KFIFO_PEEK d i msk = Some (d ! unat (i AND msk))"
proof -
  have "unat (i AND msk) \<le> unat msk"
    by (simp add: word_and_le1 flip: word_le_nat_alt)
  with assms show ?thesis by (simp add: KFIFO_PEEK_def)
qed

lemma kfifo_peek_n_in_range:
  assumes "unat (fifo_mask f) < length (fifo_data f)"
  shows "kfifo_peek_n f recsize =
     Some (if recsize - 1 \<noteq> 0
           then ucast (fifo_data f ! unat (fifo_out f AND fifo_mask f))
                OR push_bit 8 (ucast (fifo_data f ! unat ((fifo_out f + 1) AND fifo_mask f)))
           else ucast (fifo_data f ! unat (fifo_out f AND fifo_mask f)))"
  by (simp add: kfifo_peek_n_def KFIFO_PEEK_in_range [OF assms])

text \<open>
  C9. \<open>__kfifo_skip_r\<close> tests nothing. Whenever the byte(s) at \<open>out & mask\<close> (and
  \<open>(out + 1) & mask\<close>) lie in the buffer, it decodes the value \<open>v\<close> there (one byte
  for a header width of 1, two bytes, low byte first, for a width of 2) and sets
  \<open>out\<close> to \<open>out + v + recsize\<close>. On an empty fifo \<open>out\<close> thereby passes \<open>in\<close>
  by \<open>v + recsize\<close>: the occupancy \<open>in - out\<close> becomes \<open>- (v + recsize)\<close>, modulo
  \<open>2^32\<close>.
\<close>

theorem kfifo_skip_r_unguarded:
  assumes "unat (fifo_mask f) < length (fifo_data f)"
  shows "\<exists>v. kfifo_peek_n f recsize = Some v \<and>
           (recsize = 1 \<longrightarrow> v = ucast (fifo_data f ! unat (fifo_out f AND fifo_mask f))) \<and>
           (recsize = 2 \<longrightarrow> v = ucast (fifo_data f ! unat (fifo_out f AND fifo_mask f))
                OR push_bit 8 (ucast (fifo_data f ! unat ((fifo_out f + 1) AND fifo_mask f)))) \<and>
           kfifo_skip_r f recsize = Some (f\<lparr>fifo_out := fifo_out f + v + ucast recsize\<rparr>) \<and>
           (kfifo_is_empty f \<longrightarrow>
              kfifo_len (f\<lparr>fifo_out := fifo_out f + v + ucast recsize\<rparr>) = - (v + ucast recsize))"
  by (simp add: kfifo_peek_n_in_range [OF assms] kfifo_skip_r_def ucast_size_t_add2
        kfifo_is_empty_def kfifo_len_def)

theorem kfifo_skip_r_unguarded_witness:
  "kfifo_peek_n \<lparr>fifo_in = 2, fifo_out = 2, fifo_mask = 1, fifo_esize = 1, fifo_data = [1, 65]\<rparr> 1 = Some 1
   \<and> kfifo_skip_r \<lparr>fifo_in = 2, fifo_out = 2, fifo_mask = 1, fifo_esize = 1, fifo_data = [1, 65]\<rparr> 1
       = Some \<lparr>fifo_in = 2, fifo_out = 4, fifo_mask = 1, fifo_esize = 1, fifo_data = [1, 65]\<rparr>
   \<and> kfifo_len \<lparr>fifo_in = 2, fifo_out = 4, fifo_mask = 1, fifo_esize = 1, fifo_data = [1, 65]\<rparr> = - 2"
  using kfifo_skip_r_unguarded [of "\<lparr>fifo_in = 2, fifo_out = 2, fifo_mask = 1, fifo_esize = 1, fifo_data = [1, 65]\<rparr>" 1]
  by (simp add: kfifo_is_empty_def)

text \<open>
  C7. \<open>__kfifo_len_r\<close> is to give 0 on an empty fifo. It has no such test and
  returns the stale header found at the read offset. A fifo of 2 bytes is initialised
  over a zeroed buffer, the record \<open>A\<close> is enqueued and dequeued: the fifo is empty,
  and \<open>__kfifo_len_r\<close> gives 1, the header of the record already consumed.
\<close>

theorem kfifo_len_r_stale_header:
  "kfifo_init \<lparr>fifo_in = 0, fifo_out = 0, fifo_mask = 0, fifo_esize = 0, fifo_data = []\<rparr> [0, 0] 2 1
     = Some (\<lparr>fifo_in = 0, fifo_out = 0, fifo_mask = 1, fifo_esize = 1, fifo_data = [0, 0]\<rparr>, Inr ())
   \<and> kfifo_in_r \<lparr>fifo_in = 0, fifo_out = 0, fifo_mask = 1, fifo_esize = 1, fifo_data = [0, 0]\<rparr> [65] 1 1
     = Some (\<lparr>fifo_in = 2, fifo_out = 0, fifo_mask = 1, fifo_esize = 1, fifo_data = [1, 65]\<rparr>, 1)
   \<and> kfifo_out_r \<lparr>fifo_in = 2, fifo_out = 0, fifo_mask = 1, fifo_esize = 1, fifo_data = [1, 65]\<rparr> [0] 1 1
     = Some (\<lparr>fifo_in = 2, fifo_out = 2, fifo_mask = 1, fifo_esize = 1, fifo_data = [1, 65]\<rparr>, [65], 1)
   \<and> kfifo_is_empty \<lparr>fifo_in = 2, fifo_out = 2, fifo_mask = 1, fifo_esize = 1, fifo_data = [1, 65]\<rparr>
   \<and> kfifo_len_r \<lparr>fifo_in = 2, fifo_out = 2, fifo_mask = 1, fifo_esize = 1, fifo_data = [1, 65]\<rparr> 1 = Some 1"
  by (simp add: kfifo_init_def rounddown_pow_of_two_def kfifo_in_r_def kfifo_unused_def
        kfifo_poke_n_def KFIFO_POKE_def kfifo_copy_in_def memcpy_def kfifo_out_r_def
        kfifo_out_copy_r_def kfifo_peek_n_def KFIFO_PEEK_def kfifo_copy_out_def
        kfifo_is_empty_def kfifo_len_r_def)

section \<open>Enqueue and dequeue\<close>


lemma geom_cap_lt:
  assumes "kfifo_geom f"
  shows "unat (fifo_mask f) + 1 < 2 ^ 32" and "unat (fifo_mask f + 1) = unat (fifo_mask f) + 1"
    and "0 < unat (fifo_esize f)"
proof -
  show es: "0 < unat (fifo_esize f)" using assms by (simp add: kfifo_geom_def unat_gt_0)
  have "(unat (fifo_mask f) + 1) * 1 \<le> (unat (fifo_mask f) + 1) * unat (fifo_esize f)"
    using es by (intro mult_le_mono2) simp
  moreover have "(unat (fifo_mask f) + 1) * unat (fifo_esize f) < 2 ^ 32"
    using assms by (simp add: kfifo_geom_def)
  ultimately show c: "unat (fifo_mask f) + 1 < 2 ^ 32" by simp
  then show "unat (fifo_mask f + 1) = unat (fifo_mask f) + 1"
    by (simp add: unat_word_ariths)
qed

lemma wf_geom: "kfifo_wf f \<Longrightarrow> kfifo_geom f"
  by (simp add: kfifo_wf_def)

lemma wf_len_le: "kfifo_wf f \<Longrightarrow> unat (kfifo_len f) \<le> unat (fifo_mask f) + 1"
  by (simp add: kfifo_wf_def)

lemma wf_unused:
  assumes "kfifo_wf f"
  shows "unat (kfifo_unused f) = unat (fifo_mask f) + 1 - unat (kfifo_len f)"
proof -
  note g = geom_cap_lt [OF wf_geom [OF assms]]
  have "kfifo_len f \<le> fifo_mask f + 1"
    using wf_len_le [OF assms] by (simp add: word_le_nat_alt g(2))
  then have "unat (fifo_mask f + 1 - kfifo_len f) = unat (fifo_mask f + 1) - unat (kfifo_len f)"
    by (rule unat_sub)
  then show ?thesis by (simp add: kfifo_unused_def kfifo_len_def g(2))
qed

lemma if_gt_min: "(if (a::u32) > b then b else a) = min a b"
  by (auto simp: min_def)

lemma kfifo_in_ring:
  assumes wf: "kfifo_wf f"
    and src: "min (unat len) (unat (kfifo_unused f)) * unat (fifo_esize f) \<le> length src"
  shows "kfifo_in f src len =
     Some (f\<lparr>fifo_data := ring_write (fifo_data f)
                ((unat (fifo_mask f) + 1) * unat (fifo_esize f))
                (unat (fifo_in f AND fifo_mask f) * unat (fifo_esize f))
                (take (min (unat len) (unat (kfifo_unused f)) * unat (fifo_esize f)) src),
             fifo_in := fifo_in f + min len (kfifo_unused f)\<rparr>,
           min len (kfifo_unused f))"
proof -
  have n: "unat (min len (kfifo_unused f)) = min (unat len) (unat (kfifo_unused f))"
    by (rule unat_min)
  have "unat (min len (kfifo_unused f)) \<le> unat (fifo_mask f) + 1"
    unfolding n using wf_unused [OF wf] by simp
  from kfifo_copy_in_ring [OF wf_geom [OF wf] this, of src "fifo_in f"] src
  show ?thesis
    by (simp add: kfifo_in_def Let_def if_gt_min n)
qed

lemma kfifo_out_peek_ring:
  assumes wf: "kfifo_wf f"
    and dst: "min (unat len) (unat (kfifo_len f)) * unat (fifo_esize f) \<le> length dst"
  shows "kfifo_out_peek f dst len =
     Some (ring_read (fifo_data f)
                ((unat (fifo_mask f) + 1) * unat (fifo_esize f))
                (unat (fifo_out f AND fifo_mask f) * unat (fifo_esize f))
                (min (unat len) (unat (kfifo_len f)) * unat (fifo_esize f))
             @ drop (min (unat len) (unat (kfifo_len f)) * unat (fifo_esize f)) dst,
           min len (kfifo_len f))"
proof -
  have n: "unat (min len (kfifo_len f)) = min (unat len) (unat (kfifo_len f))"
    by (rule unat_min)
  have "unat (min len (kfifo_len f)) \<le> unat (fifo_mask f) + 1"
    unfolding n using wf_len_le [OF wf] by simp
  from kfifo_copy_out_ring [OF wf_geom [OF wf] this, of dst "fifo_out f"] dst
  show ?thesis
    by (simp add: kfifo_out_peek_def Let_def if_gt_min n flip: kfifo_len_def)
qed

lemma kfifo_out_ring:
  assumes wf: "kfifo_wf f"
    and dst: "min (unat len) (unat (kfifo_len f)) * unat (fifo_esize f) \<le> length dst"
  shows "kfifo_out f dst len =
     Some (f\<lparr>fifo_out := fifo_out f + min len (kfifo_len f)\<rparr>,
           ring_read (fifo_data f)
                ((unat (fifo_mask f) + 1) * unat (fifo_esize f))
                (unat (fifo_out f AND fifo_mask f) * unat (fifo_esize f))
                (min (unat len) (unat (kfifo_len f)) * unat (fifo_esize f))
             @ drop (min (unat len) (unat (kfifo_len f)) * unat (fifo_esize f)) dst,
           min len (kfifo_len f))"
  by (simp add: kfifo_out_def kfifo_out_peek_ring [OF assms])


lemma nth_ring_write_image:
  assumes "off < c" "c \<le> length d" "length bs \<le> c" "i < length bs"
  shows "ring_write d c off bs ! ((off + i) mod c) = bs ! i"
  using nth_ring_write [OF assms(1-3), of i] assms by simp

lemma nth_ring_write_other:
  assumes "off < c" "c \<le> length d" "length bs \<le> c" "j < length d"
    and "\<forall>i<length bs. j \<noteq> (off + i) mod c"
  shows "ring_write d c off bs ! j = d ! j"
proof (cases "j < c")
  case True
  define k where "k = (j + c - off) mod c"
  have k: "k < c" using assms(1) by (simp add: k_def)
  have "(off + k) mod c = (off + (j + c - off)) mod c"
    unfolding k_def by (rule mod_add_right_eq)
  also have "\<dots> = (j + c) mod c" using assms(1) by simp
  also have "\<dots> = j" using True by simp
  finally have j: "(off + k) mod c = j" .
  then have "\<not> k < length bs" using assms(5) by auto
  with nth_ring_write [OF assms(1-3) k] j show ?thesis by simp
next
  case False
  then show ?thesis using assms by (simp add: nth_ring_write_beyond)
qed

lemma byte_off_lt:
  assumes "kfifo_geom f"
  shows "unat (i AND fifo_mask f) * unat (fifo_esize f) < (unat (fifo_mask f) + 1) * unat (fifo_esize f)"
proof -
  have "unat (0::u32) \<le> unat (fifo_mask f) + 1" by simp
  from geom_words(1,4) [OF assms this, of i] show ?thesis by simp
qed

lemma wf_pow2:
  assumes "kfifo_wf f"
  obtains k where "0 < k" "k < 32" "fifo_mask f = 2 ^ k - 1" "unat (fifo_mask f) + 1 = 2 ^ k"
proof -
  from assms obtain k where k: "k \<in> {1..<32}" "fifo_mask f = 2 ^ k - 1"
    by (auto simp: kfifo_wf_def)
  then have "k < 32" "0 < k" by simp_all
  moreover have "unat (fifo_mask f) + 1 = 2 ^ k"
    using k by (simp add: unat_mask_k)
  ultimately show ?thesis using k that by blast
qed

lemma wf_and_mask:
  assumes "kfifo_wf f"
  shows "unat (x AND fifo_mask f) = unat x mod (unat (fifo_mask f) + 1)"
proof -
  from assms obtain k where k: "k < 32" "fifo_mask f = 2 ^ k - 1" "unat (fifo_mask f) + 1 = 2 ^ k"
    by (rule wf_pow2)
  show ?thesis unfolding k(3) unfolding k(2) by (rule and_mask_unat [OF k(1)])
qed

lemma wf_and_mask_add:
  assumes "kfifo_wf f"
  shows "unat ((x + y) AND fifo_mask f) = (unat x + unat y) mod (unat (fifo_mask f) + 1)"
proof -
  from assms obtain k where k: "k < 32" "fifo_mask f = 2 ^ k - 1" "unat (fifo_mask f) + 1 = 2 ^ k"
    by (rule wf_pow2)
  show ?thesis
    unfolding wf_and_mask [OF assms] unfolding k(3) by (rule unat_add_mod_pow2 [OF k(1)])
qed

lemma wf_cap_ge2:
  assumes "kfifo_wf f"
  shows "2 \<le> unat (fifo_mask f) + 1"
proof -
  from assms obtain k where k: "0 < k" "unat (fifo_mask f) + 1 = 2 ^ k"
    by (rule wf_pow2)
  have "(2::nat) ^ 1 \<le> 2 ^ k" using k(1) by (intro power_increasing) simp_all
  then show ?thesis unfolding k(2) by simp
qed

lemma mod_add_inj_le:
  fixes c :: nat
  assumes "a \<le> b" "b < c" "(x + a) mod c = (x + b) mod c"
  shows "a = b"
proof -
  have "x + a \<le> x + b" using assms(1) by simp
  then have "((x + b) mod c = (x + a) mod c) = (c dvd (x + b) - (x + a))"
    by (rule mod_eq_dvd_iff_nat)
  then have "c dvd (x + b) - (x + a)" using assms(3) by simp
  then have "c dvd b - a" by simp
  moreover have "b - a < c" using assms(2) by simp
  ultimately have "b - a = 0" by (meson dvd_imp_le not_less zero_less_iff_neq_zero)
  then show ?thesis using assms(1) by simp
qed

lemma mod_add_inj:
  fixes c :: nat
  assumes "a < c" "b < c" "(x + a) mod c = (x + b) mod c"
  shows "a = b"
proof (cases "a \<le> b")
  case True
  then show ?thesis using assms by (intro mod_add_inj_le [of a b c x])
next
  case False
  then have "b \<le> a" by simp
  then have "b = a" using assms by (intro mod_add_inj_le [of b a c x]) simp_all
  then show ?thesis by simp
qed

lemma ring_read_write_append:
  assumes "ob < c" "c \<le> length d" "nq + length bs \<le> c"
  shows "ring_read (ring_write d c ((ob + nq) mod c) bs) c ob (nq + length bs)
       = ring_read d c ob nq @ bs"
proof (rule nth_equalityI)
  let ?ib = "(ob + nq) mod c"
  let ?d' = "ring_write d c ?ib bs"
  have ib: "?ib < c" using assms(1) by simp
  have lb: "length bs \<le> c" using assms(3) by simp
  have nq: "nq \<le> c" using assms(3) by simp
  have ld: "c \<le> length ?d'" using assms(2) by (simp add: length_ring_write [OF ib assms(2) lb])
  have l1: "length (ring_read ?d' c ob (nq + length bs)) = nq + length bs"
    by (rule length_ring_read [OF assms(1) ld assms(3)])
  have l2: "length (ring_read d c ob nq) = nq"
    by (rule length_ring_read [OF assms(1,2) nq])
  show "length (ring_read ?d' c ob (nq + length bs)) = length (ring_read d c ob nq @ bs)"
    by (simp add: l1 l2)
  fix i assume "i < length (ring_read ?d' c ob (nq + length bs))"
  then have i: "i < nq + length bs" by (simp add: l1)
  have r: "ring_read ?d' c ob (nq + length bs) ! i = ?d' ! ((ob + i) mod c)"
    by (rule nth_ring_read [OF assms(1) ld assms(3) i])
  show "ring_read ?d' c ob (nq + length bs) ! i = (ring_read d c ob nq @ bs) ! i"
  proof (cases "i < nq")
    case True
    define k where "k = i + c - nq"
    have k: "k < c" "\<not> k < length bs" using True assms(3) by (simp_all add: k_def)
    have "(?ib + k) mod c = (ob + nq + k) mod c" by (simp add: mod_add_left_eq)
    also have "ob + nq + k = ob + i + c" using True nq by (simp add: k_def)
    also have "(ob + i + c) mod c = (ob + i) mod c" by simp
    finally have p: "(?ib + k) mod c = (ob + i) mod c" .
    have "?d' ! ((ob + i) mod c) = d ! ((ob + i) mod c)"
      using nth_ring_write [OF ib assms(2) lb k(1)] k(2) unfolding p by simp
    also have "\<dots> = ring_read d c ob nq ! i"
      by (rule nth_ring_read [OF assms(1,2) nq True, symmetric])
    finally show ?thesis using True by (simp add: r nth_append l2)
  next
    case False
    define k where "k = i - nq"
    have k: "k < length bs" "k < c" using False i lb by (simp_all add: k_def)
    have "(?ib + k) mod c = (ob + nq + k) mod c" by (simp add: mod_add_left_eq)
    also have "ob + nq + k = ob + i" using False by (simp add: k_def)
    finally have p: "(?ib + k) mod c = (ob + i) mod c" .
    have "?d' ! ((ob + i) mod c) = bs ! k"
      using nth_ring_write [OF ib assms(2) lb k(2)] k(1) unfolding p by simp
    then show ?thesis using False by (simp add: r nth_append l2 k_def)
  qed
qed

lemma ring_read_take:
  assumes "ob < c" "c \<le> length d" "nq \<le> c" "m \<le> nq"
  shows "ring_read d c ob m = take m (ring_read d c ob nq)"
proof (rule nth_equalityI)
  have mc: "m \<le> c" using assms by simp
  have l1: "length (ring_read d c ob m) = m" by (rule length_ring_read [OF assms(1,2) mc])
  have l2: "length (ring_read d c ob nq) = nq" by (rule length_ring_read [OF assms(1,2,3)])
  show "length (ring_read d c ob m) = length (take m (ring_read d c ob nq))"
    using assms(4) by (simp add: l1 l2)
  fix i assume "i < length (ring_read d c ob m)"
  then have i: "i < m" by (simp add: l1)
  then have i2: "i < nq" using assms(4) by simp
  show "ring_read d c ob m ! i = take m (ring_read d c ob nq) ! i"
    using i by (simp add: nth_ring_read [OF assms(1,2) mc i] nth_ring_read [OF assms(1,2,3) i2])
qed

lemma ring_read_drop:
  assumes "ob < c" "c \<le> length d" "nq \<le> c" "m \<le> nq"
  shows "ring_read d c ((ob + m) mod c) (nq - m) = drop m (ring_read d c ob nq)"
proof (rule nth_equalityI)
  let ?o = "(ob + m) mod c"
  have o: "?o < c" using assms(1) by simp
  have nc: "nq - m \<le> c" using assms by simp
  have l1: "length (ring_read d c ?o (nq - m)) = nq - m" by (rule length_ring_read [OF o assms(2) nc])
  have l2: "length (ring_read d c ob nq) = nq" by (rule length_ring_read [OF assms(1,2,3)])
  show "length (ring_read d c ?o (nq - m)) = length (drop m (ring_read d c ob nq))"
    by (simp add: l1 l2)
  fix i assume "i < length (ring_read d c ?o (nq - m))"
  then have i: "i < nq - m" by (simp add: l1)
  then have i2: "m + i < nq" by simp
  have "(?o + i) mod c = (ob + m + i) mod c" by (simp add: mod_add_left_eq)
  then have "ring_read d c ?o (nq - m) ! i = ring_read d c ob nq ! (m + i)"
    by (simp add: nth_ring_read [OF o assms(2) nc i] nth_ring_read [OF assms(1,2,3) i2] add.assoc)
  then show "ring_read d c ?o (nq - m) ! i = drop m (ring_read d c ob nq) ! i"
    using assms(4) by (simp add: l2)
qed

lemma wf_byte_off_add:
  assumes "kfifo_wf f"
  shows "unat ((x + y) AND fifo_mask f) * unat (fifo_esize f)
       = (unat (x AND fifo_mask f) * unat (fifo_esize f) + unat y * unat (fifo_esize f))
           mod ((unat (fifo_mask f) + 1) * unat (fifo_esize f))"
proof -
  let ?c = "unat (fifo_mask f) + 1" and ?es = "unat (fifo_esize f)"
  have "unat ((x + y) AND fifo_mask f) * ?es = ((unat x + unat y) mod ?c) * ?es"
    by (simp only: wf_and_mask_add [OF assms])
  also have "\<dots> = ((unat x + unat y) * ?es) mod (?c * ?es)"
    by (rule mult_mod_left)
  also have "\<dots> = (unat x * ?es + unat y * ?es) mod (?c * ?es)"
    by (simp only: add_mult_distrib)
  also have "\<dots> = ((unat x * ?es) mod (?c * ?es) + unat y * ?es) mod (?c * ?es)"
    by (simp only: mod_add_left_eq)
  also have "(unat x * ?es) mod (?c * ?es) = (unat x mod ?c) * ?es"
    by (rule mult_mod_left [symmetric])
  also have "unat x mod ?c = unat (x AND fifo_mask f)"
    by (simp only: wf_and_mask [OF assms])
  finally show ?thesis .
qed

lemma wf_in_off:
  assumes "kfifo_wf f"
  shows "unat (fifo_in f AND fifo_mask f) * unat (fifo_esize f)
       = (unat (fifo_out f AND fifo_mask f) * unat (fifo_esize f)
            + unat (kfifo_len f) * unat (fifo_esize f))
           mod ((unat (fifo_mask f) + 1) * unat (fifo_esize f))"
  using wf_byte_off_add [OF assms, of "fifo_out f" "kfifo_len f"]
  by (simp add: kfifo_len_def)

lemma wf_update_in:
  assumes wf: "kfifo_wf f" and r: "unat r \<le> unat (kfifo_unused f)"
    and l: "length d = length (fifo_data f)"
  shows "kfifo_wf (f\<lparr>fifo_data := d, fifo_in := fifo_in f + r\<rparr>)"
    and "unat (kfifo_len (f\<lparr>fifo_data := d, fifo_in := fifo_in f + r\<rparr>)) = unat (kfifo_len f) + unat r"
proof -
  note g = geom_cap_lt [OF wf_geom [OF wf]]
  have "unat (kfifo_len f) + unat r \<le> unat (fifo_mask f) + 1"
    using r wf_unused [OF wf] wf_len_le [OF wf] by simp
  moreover have "kfifo_len (f\<lparr>fifo_data := d, fifo_in := fifo_in f + r\<rparr>) = kfifo_len f + r"
    by (simp add: kfifo_len_def)
  ultimately show n: "unat (kfifo_len (f\<lparr>fifo_data := d, fifo_in := fifo_in f + r\<rparr>))
      = unat (kfifo_len f) + unat r"
    using g(1) by (simp add: unat_word_ariths)
  show "kfifo_wf (f\<lparr>fifo_data := d, fifo_in := fifo_in f + r\<rparr>)"
    using wf r wf_unused [OF wf] wf_len_le [OF wf] l unfolding kfifo_wf_def n
    by (simp add: kfifo_geom_def)
qed

lemma wf_update_out:
  assumes wf: "kfifo_wf f" and r: "unat r \<le> unat (kfifo_len f)"
  shows "kfifo_wf (f\<lparr>fifo_out := fifo_out f + r\<rparr>)"
    and "unat (kfifo_len (f\<lparr>fifo_out := fifo_out f + r\<rparr>)) = unat (kfifo_len f) - unat r"
proof -
  have "r \<le> kfifo_len f" using r by (simp add: word_le_nat_alt)
  moreover have "kfifo_len (f\<lparr>fifo_out := fifo_out f + r\<rparr>) = kfifo_len f - r"
    by (simp add: kfifo_len_def)
  ultimately show n: "unat (kfifo_len (f\<lparr>fifo_out := fifo_out f + r\<rparr>)) = unat (kfifo_len f) - unat r"
    by (simp add: unat_sub)
  show "kfifo_wf (f\<lparr>fifo_out := fifo_out f + r\<rparr>)"
    using wf wf_len_le [OF wf] unfolding kfifo_wf_def n
    by (simp add: kfifo_geom_def)
qed

lemma length_contents:
  assumes wf: "kfifo_wf f"
  shows "length (kfifo_contents f) = unat (kfifo_len f) * unat (fifo_esize f)"
proof -
  note g = wf_geom [OF wf]
  have c: "(unat (fifo_mask f) + 1) * unat (fifo_esize f) \<le> length (fifo_data f)"
    using g by (simp add: kfifo_geom_def)
  have n: "unat (kfifo_len f) * unat (fifo_esize f) \<le> (unat (fifo_mask f) + 1) * unat (fifo_esize f)"
    using wf_len_le [OF wf] by (rule mult_le_mono1)
  show ?thesis unfolding kfifo_contents_def
    by (rule length_ring_read [OF byte_off_lt [OF g] c n])
qed

lemma kfifo_in_contents:
  assumes wf: "kfifo_wf f"
    and src: "min (unat len) (unat (kfifo_unused f)) * unat (fifo_esize f) \<le> length src"
  shows "\<exists>f' r. kfifo_in f src len = Some (f', r) \<and> kfifo_wf f' \<and>
           unat r = min (unat len) (unat (kfifo_unused f)) \<and>
           fifo_esize f' = fifo_esize f \<and> fifo_mask f' = fifo_mask f \<and>
           unat (kfifo_len f') = unat (kfifo_len f) + unat r \<and>
           kfifo_contents f' = kfifo_contents f @ take (unat r * unat (fifo_esize f)) src"
proof -
  let ?es = "unat (fifo_esize f)"
  let ?c = "(unat (fifo_mask f) + 1) * ?es"
  let ?ob = "unat (fifo_out f AND fifo_mask f) * ?es"
  let ?nq = "unat (kfifo_len f) * ?es"
  let ?r = "min len (kfifo_unused f)"
  let ?n = "min (unat len) (unat (kfifo_unused f))"
  let ?bs = "take (?n * ?es) src"
  let ?d = "ring_write (fifo_data f) ?c (unat (fifo_in f AND fifo_mask f) * ?es) ?bs"
  let ?f' = "f\<lparr>fifo_data := ?d, fifo_in := fifo_in f + ?r\<rparr>"
  note g = wf_geom [OF wf]
  have r: "unat ?r = ?n" by (rule unat_min)
  have cd: "?c \<le> length (fifo_data f)" using g by (simp add: kfifo_geom_def)
  have ob: "?ob < ?c" by (rule byte_off_lt [OF g])
  have ib: "unat (fifo_in f AND fifo_mask f) * ?es < ?c" by (rule byte_off_lt [OF g])
  have lbs: "length ?bs = ?n * ?es" using src by simp
  have "unat (kfifo_len f) + ?n \<le> unat (fifo_mask f) + 1"
    using wf_unused [OF wf] wf_len_le [OF wf] by simp
  then have "(unat (kfifo_len f) + ?n) * ?es \<le> ?c" by (rule mult_le_mono1)
  then have tot: "?nq + length ?bs \<le> ?c" by (simp only: lbs add_mult_distrib)
  then have lc: "length ?bs \<le> ?c" by simp
  have ld: "length ?d = length (fifo_data f)" by (rule length_ring_write [OF ib cd lc])
  have k: "kfifo_in f src len = Some (?f', ?r)" by (rule kfifo_in_ring [OF wf src])
  have rle: "unat ?r \<le> unat (kfifo_unused f)" unfolding r by simp
  note u = wf_update_in [OF wf rle ld]
  have "kfifo_contents ?f' = ring_read ?d ?c ?ob (?nq + length ?bs)"
    unfolding kfifo_contents_def u(2) by (simp add: r min_absorb2 [OF src] add_mult_distrib)
  also have "\<dots> = ring_read (fifo_data f) ?c ?ob ?nq @ ?bs"
    unfolding wf_in_off [OF wf] by (rule ring_read_write_append [OF ob cd tot])
  finally have "kfifo_contents ?f' = kfifo_contents f @ take (unat ?r * ?es) src"
    by (simp add: kfifo_contents_def r)
  with k u r show ?thesis by simp
qed

lemma kfifo_out_contents:
  assumes wf: "kfifo_wf f"
    and dst: "min (unat len) (unat (kfifo_len f)) * unat (fifo_esize f) \<le> length dst"
  shows "\<exists>f' dst' r. kfifo_out f dst len = Some (f', dst', r) \<and> kfifo_wf f' \<and>
           unat r = min (unat len) (unat (kfifo_len f)) \<and>
           fifo_esize f' = fifo_esize f \<and> fifo_mask f' = fifo_mask f \<and>
           unat (kfifo_len f') = unat (kfifo_len f) - unat r \<and>
           dst' = take (unat r * unat (fifo_esize f)) (kfifo_contents f)
                    @ drop (unat r * unat (fifo_esize f)) dst \<and>
           kfifo_contents f' = drop (unat r * unat (fifo_esize f)) (kfifo_contents f)"
proof -
  let ?es = "unat (fifo_esize f)"
  let ?c = "(unat (fifo_mask f) + 1) * ?es"
  let ?ob = "unat (fifo_out f AND fifo_mask f) * ?es"
  let ?nq = "unat (kfifo_len f) * ?es"
  let ?r = "min len (kfifo_len f)"
  let ?m = "min (unat len) (unat (kfifo_len f))"
  let ?f' = "f\<lparr>fifo_out := fifo_out f + ?r\<rparr>"
  note g = wf_geom [OF wf]
  have r: "unat ?r = ?m" by (rule unat_min)
  have cd: "?c \<le> length (fifo_data f)" using g by (simp add: kfifo_geom_def)
  have ob: "?ob < ?c" by (rule byte_off_lt [OF g])
  have nq: "?nq \<le> ?c" using wf_len_le [OF wf] by (rule mult_le_mono1)
  have "?m \<le> unat (kfifo_len f)" by simp
  then have mq: "?m * ?es \<le> ?nq" by (rule mult_le_mono1)
  have k: "kfifo_out f dst len = Some (?f', ring_read (fifo_data f) ?c ?ob (?m * ?es) @ drop (?m * ?es) dst, ?r)"
    by (rule kfifo_out_ring [OF wf dst])
  have rle: "unat ?r \<le> unat (kfifo_len f)" unfolding r by simp
  note u = wf_update_out [OF wf rle]
  have t: "ring_read (fifo_data f) ?c ?ob (?m * ?es) = take (?m * ?es) (kfifo_contents f)"
    unfolding kfifo_contents_def by (rule ring_read_take [OF ob cd nq mq])
  have "kfifo_contents ?f' = ring_read (fifo_data f) ?c ((?ob + ?m * ?es) mod ?c) (?nq - ?m * ?es)"
    unfolding kfifo_contents_def u(2)
    by (simp add: r diff_mult_distrib wf_byte_off_add [OF wf])
  also have "\<dots> = drop (?m * ?es) (kfifo_contents f)"
    unfolding kfifo_contents_def by (rule ring_read_drop [OF ob cd nq mq])
  finally have "kfifo_contents ?f' = drop (unat ?r * ?es) (kfifo_contents f)"
    by (simp add: r)
  with k u r t show ?thesis by simp
qed

lemma kfifo_in_seq_contents:
  assumes "kfifo_wf f"
    and "\<forall>(buf, len) \<in> set ins. unat len * unat (fifo_esize f) \<le> length buf"
  shows "\<exists>f1 rets. kfifo_in_seq f ins = Some (f1, rets) \<and> kfifo_wf f1 \<and>
           fifo_esize f1 = fifo_esize f \<and>
           (rets = map snd ins \<longrightarrow>
              kfifo_contents f1 = kfifo_contents f
                @ concat (map (\<lambda>(buf, len). take (unat len * unat (fifo_esize f)) buf) ins))"
  using assms
proof (induction ins arbitrary: f)
  case Nil
  then show ?case by simp
next
  case (Cons x xs)
  obtain buf len where x: "x = (buf, len)" by (cases x)
  have "unat len * unat (fifo_esize f) \<le> length buf" using Cons.prems(2) by (simp add: x)
  moreover have "min (unat len) (unat (kfifo_unused f)) * unat (fifo_esize f)
      \<le> unat len * unat (fifo_esize f)"
    by (rule mult_le_mono1) simp
  ultimately have src: "min (unat len) (unat (kfifo_unused f)) * unat (fifo_esize f) \<le> length buf"
    by (rule le_trans [rotated])
  from kfifo_in_contents [OF Cons.prems(1) src]
  obtain f' r where s: "kfifo_in f buf len = Some (f', r)" "kfifo_wf f'"
      "fifo_esize f' = fifo_esize f"
      "kfifo_contents f' = kfifo_contents f @ take (unat r * unat (fifo_esize f)) buf"
    by blast
  have "\<forall>(buf, len) \<in> set xs. unat len * unat (fifo_esize f') \<le> length buf"
    using Cons.prems(2) by (simp add: s(3))
  from Cons.IH [OF s(2) this]
  obtain f1 rets where t: "kfifo_in_seq f' xs = Some (f1, rets)" "kfifo_wf f1"
      "fifo_esize f1 = fifo_esize f'"
      "rets = map snd xs \<longrightarrow>
         kfifo_contents f1 = kfifo_contents f'
           @ concat (map (\<lambda>(buf, len). take (unat len * unat (fifo_esize f')) buf) xs)"
    by blast
  show ?case
    using s t by (simp add: x)
qed

lemma kfifo_out_seq_contents:
  assumes "kfifo_wf f"
    and "\<forall>(buf, len) \<in> set reqs. unat len * unat (fifo_esize f) \<le> length buf"
  shows "\<exists>f2 outs. kfifo_out_seq f reqs = Some (f2, outs) \<and> kfifo_wf f2 \<and>
           fifo_esize f2 = fifo_esize f \<and>
           kfifo_contents f
             = concat (map (\<lambda>(buf, r). take (unat r * unat (fifo_esize f)) buf) outs)
                 @ kfifo_contents f2"
  using assms
proof (induction reqs arbitrary: f)
  case Nil
  then show ?case by simp
next
  case (Cons x xs)
  let ?es = "unat (fifo_esize f)"
  obtain buf len where x: "x = (buf, len)" by (cases x)
  have "unat len * ?es \<le> length buf" using Cons.prems(2) by (simp add: x)
  moreover have "min (unat len) (unat (kfifo_len f)) * ?es \<le> unat len * ?es"
    by (rule mult_le_mono1) simp
  ultimately have dst: "min (unat len) (unat (kfifo_len f)) * ?es \<le> length buf"
    by (rule le_trans [rotated])
  from kfifo_out_contents [OF Cons.prems(1) dst]
  obtain f' buf' r where s: "kfifo_out f buf len = Some (f', buf', r)" "kfifo_wf f'"
      "unat r = min (unat len) (unat (kfifo_len f))"
      "fifo_esize f' = fifo_esize f"
      "buf' = take (unat r * ?es) (kfifo_contents f) @ drop (unat r * ?es) buf"
      "kfifo_contents f' = drop (unat r * ?es) (kfifo_contents f)"
    by blast
  have "unat r \<le> unat (kfifo_len f)" by (simp add: s(3))
  then have "unat r * ?es \<le> length (kfifo_contents f)"
    unfolding length_contents [OF Cons.prems(1)] by (rule mult_le_mono1)
  then have tk: "take (unat r * ?es) buf' = take (unat r * ?es) (kfifo_contents f)"
    by (simp add: s(5))
  have "\<forall>(buf, len) \<in> set xs. unat len * unat (fifo_esize f') \<le> length buf"
    using Cons.prems(2) by (simp add: s(4))
  from Cons.IH [OF s(2) this]
  obtain f2 outs where t: "kfifo_out_seq f' xs = Some (f2, outs)" "kfifo_wf f2"
      "fifo_esize f2 = fifo_esize f'"
      "kfifo_contents f'
         = concat (map (\<lambda>(buf, r). take (unat r * unat (fifo_esize f')) buf) outs)
             @ kfifo_contents f2"
    by blast
  have "kfifo_contents f = take (unat r * ?es) buf' @ kfifo_contents f'"
    by (simp add: tk s(6))
  then show ?case
    using s(1,4) t by (simp add: x)
qed

lemma contents_empty:
  assumes "kfifo_wf f" "kfifo_is_empty f"
  shows "kfifo_contents f = []"
proof -
  have "kfifo_len f = 0" using assms(2) by (simp add: kfifo_is_empty_def kfifo_len_def)
  then have "length (kfifo_contents f) = 0" by (simp add: length_contents [OF assms(1)])
  then show ?thesis by simp
qed

section \<open>The transfer of \<open>__kfifo_in\<close> and \<open>__kfifo_out\<close>\<close>

text \<open>
  C2. On a fifo that satisfies the invariants, \<open>__kfifo_in\<close> asked for \<open>len\<close>
  elements transfers \<open>n = min len unused\<close> elements when the source holds that many:
  it returns \<open>n\<close>, advances \<open>in\<close> by \<open>n\<close>, leaves \<open>out\<close>, the mask and the
  element size alone, and the buffer holds byte \<open>i\<close> of the source at byte offset
  \<open>((in & mask) * esize + i) mod (capacity * esize)\<close> for the \<open>n * esize\<close> bytes of the
  transfer and is unchanged at every other offset. \<open>__kfifo_out\<close> asked for \<open>len\<close>
  elements transfers \<open>m = min len occupancy\<close> elements: it returns \<open>m\<close>, advances
  \<open>out\<close> by \<open>m\<close> and nothing else, and the destination receives the buffer's bytes
  from offset \<open>(out & mask) * esize\<close> on, around the end of the ring, in its first
  \<open>m * esize\<close> bytes and is unchanged after them.
\<close>

theorem kfifo_in_out_transfer:
  assumes wf: "kfifo_wf f"
  shows "(n = min (unat len) (unat (kfifo_unused f)) \<and> n * unat (fifo_esize f) \<le> length src \<longrightarrow>
           (\<exists>d r. kfifo_in f src len = Some (f\<lparr>fifo_data := d, fifo_in := fifo_in f + r\<rparr>, r) \<and>
              unat r = n \<and> length d = length (fifo_data f) \<and>
              (\<forall>i < n * unat (fifo_esize f).
                 d ! ((unat (fifo_in f AND fifo_mask f) * unat (fifo_esize f) + i)
                        mod ((unat (fifo_mask f) + 1) * unat (fifo_esize f))) = src ! i) \<and>
              (\<forall>j < length d.
                 (\<forall>i < n * unat (fifo_esize f).
                    j \<noteq> (unat (fifo_in f AND fifo_mask f) * unat (fifo_esize f) + i)
                        mod ((unat (fifo_mask f) + 1) * unat (fifo_esize f))) \<longrightarrow>
                 d ! j = fifo_data f ! j)))
       \<and> (m = min (unat len) (unat (kfifo_len f)) \<and> m * unat (fifo_esize f) \<le> length dst \<longrightarrow>
           (\<exists>dst' r. kfifo_out f dst len = Some (f\<lparr>fifo_out := fifo_out f + r\<rparr>, dst', r) \<and>
              unat r = m \<and> length dst' = length dst \<and>
              (\<forall>i < m * unat (fifo_esize f).
                 dst' ! i = fifo_data f ! ((unat (fifo_out f AND fifo_mask f) * unat (fifo_esize f) + i)
                        mod ((unat (fifo_mask f) + 1) * unat (fifo_esize f)))) \<and>
              (\<forall>j < length dst. m * unat (fifo_esize f) \<le> j \<longrightarrow> dst' ! j = dst ! j)))"
proof (intro conjI impI; elim conjE)
  define es where "es = unat (fifo_esize f)"
  define c where "c = (unat (fifo_mask f) + 1) * es"
  note g = wf_geom [OF wf]
  have cd: "c \<le> length (fifo_data f)" using g by (simp add: kfifo_geom_def c_def es_def)
  {
    assume n: "n = min (unat len) (unat (kfifo_unused f))" and src: "n * unat (fifo_esize f) \<le> length src"
    define off where "off = unat (fifo_in f AND fifo_mask f) * es"
    define bs where "bs = take (n * es) src"
    have off: "off < c" unfolding off_def c_def es_def by (rule byte_off_lt [OF g])
    have "n \<le> unat (fifo_mask f) + 1" using wf_unused [OF wf] n by simp
    then have nc: "n * es \<le> c" unfolding c_def by (rule mult_le_mono1)
    have lbs: "length bs = n * es" using src by (simp add: bs_def es_def)
    then have lc: "length bs \<le> c" using nc by simp
    have k: "kfifo_in f src len =
       Some (f\<lparr>fifo_data := ring_write (fifo_data f) c off bs,
               fifo_in := fifo_in f + min len (kfifo_unused f)\<rparr>, min len (kfifo_unused f))"
      using kfifo_in_ring [OF wf, of len src] src
      by (simp add: n c_def off_def bs_def es_def)
    have r: "unat (min len (kfifo_unused f)) = n" by (simp add: unat_min n)
    have "\<forall>i < n * es. ring_write (fifo_data f) c off bs ! ((off + i) mod c) = src ! i"
      using nth_ring_write_image [OF off cd lc] by (simp add: lbs) (simp add: bs_def)
    moreover have "\<forall>j < length (ring_write (fifo_data f) c off bs).
        (\<forall>i < n * es. j \<noteq> (off + i) mod c) \<longrightarrow>
        ring_write (fifo_data f) c off bs ! j = fifo_data f ! j"
      using nth_ring_write_other [OF off cd lc] length_ring_write [OF off cd lc]
      by (simp add: lbs)
    moreover note k r length_ring_write [OF off cd lc]
    ultimately show "\<exists>d r. kfifo_in f src len = Some (f\<lparr>fifo_data := d, fifo_in := fifo_in f + r\<rparr>, r) \<and>
              unat r = n \<and> length d = length (fifo_data f) \<and>
              (\<forall>i < n * unat (fifo_esize f).
                 d ! ((unat (fifo_in f AND fifo_mask f) * unat (fifo_esize f) + i)
                        mod ((unat (fifo_mask f) + 1) * unat (fifo_esize f))) = src ! i) \<and>
              (\<forall>j < length d.
                 (\<forall>i < n * unat (fifo_esize f).
                    j \<noteq> (unat (fifo_in f AND fifo_mask f) * unat (fifo_esize f) + i)
                        mod ((unat (fifo_mask f) + 1) * unat (fifo_esize f))) \<longrightarrow>
                 d ! j = fifo_data f ! j)"
      unfolding c_def off_def es_def by (intro exI conjI) assumption+
  }
  {
    assume m: "m = min (unat len) (unat (kfifo_len f))" and dst: "m * unat (fifo_esize f) \<le> length dst"
    define off where "off = unat (fifo_out f AND fifo_mask f) * es"
    have off: "off < c" unfolding off_def c_def es_def by (rule byte_off_lt [OF g])
    have "m \<le> unat (fifo_mask f) + 1" using wf_len_le [OF wf] m by simp
    then have mc: "m * es \<le> c" unfolding c_def by (rule mult_le_mono1)
    have k: "kfifo_out f dst len =
       Some (f\<lparr>fifo_out := fifo_out f + min len (kfifo_len f)\<rparr>,
             ring_read (fifo_data f) c off (m * es) @ drop (m * es) dst, min len (kfifo_len f))"
      using kfifo_out_ring [OF wf, of len dst] dst
      by (simp add: m c_def off_def es_def)
    have r: "unat (min len (kfifo_len f)) = m" by (simp add: unat_min m)
    have lr: "length (ring_read (fifo_data f) c off (m * es)) = m * es"
      by (rule length_ring_read [OF off cd mc])
    have l: "length (ring_read (fifo_data f) c off (m * es) @ drop (m * es) dst) = length dst"
      using dst lr by (simp add: es_def)
    have "\<forall>i < m * es. (ring_read (fifo_data f) c off (m * es) @ drop (m * es) dst) ! i
        = fifo_data f ! ((off + i) mod c)"
      using nth_ring_read [OF off cd mc] by (simp add: nth_append lr)
    moreover have "\<forall>j < length dst. m * es \<le> j \<longrightarrow>
        (ring_read (fifo_data f) c off (m * es) @ drop (m * es) dst) ! j = dst ! j"
      by (simp add: nth_append lr)
    moreover note k r l
    ultimately show "\<exists>dst' r. kfifo_out f dst len = Some (f\<lparr>fifo_out := fifo_out f + r\<rparr>, dst', r) \<and>
              unat r = m \<and> length dst' = length dst \<and>
              (\<forall>i < m * unat (fifo_esize f).
                 dst' ! i = fifo_data f ! ((unat (fifo_out f AND fifo_mask f) * unat (fifo_esize f) + i)
                        mod ((unat (fifo_mask f) + 1) * unat (fifo_esize f)))) \<and>
              (\<forall>j < length dst. m * unat (fifo_esize f) \<le> j \<longrightarrow> dst' ! j = dst ! j)"
      unfolding c_def off_def es_def by (intro exI conjI) assumption+
  }
qed

lemma wf_example_4x2:
  "kfifo_wf \<lparr>fifo_in = 3, fifo_out = 1, fifo_mask = 3, fifo_esize = 2,
              fifo_data = [0, 1, 2, 3, 4, 5, 6, 7]\<rparr>"
  "kfifo_wf \<lparr>fifo_in = 5, fifo_out = 3, fifo_mask = 3, fifo_esize = 2,
              fifo_data = [12, 13, 2, 3, 4, 5, 10, 11]\<rparr>"
  by (auto simp: kfifo_wf_def kfifo_geom_def kfifo_len_def intro!: bexI [of _ 2])

theorem kfifo_in_out_transfer_witness:
  "kfifo_wf \<lparr>fifo_in = 3, fifo_out = 1, fifo_mask = 3, fifo_esize = 2,
              fifo_data = [0, 1, 2, 3, 4, 5, 6, 7]\<rparr>
   \<and> kfifo_unused \<lparr>fifo_in = 3, fifo_out = 1, fifo_mask = 3, fifo_esize = 2,
              fifo_data = [0, 1, 2, 3, 4, 5, 6, 7]\<rparr> = 2
   \<and> kfifo_in \<lparr>fifo_in = 3, fifo_out = 1, fifo_mask = 3, fifo_esize = 2,
              fifo_data = [0, 1, 2, 3, 4, 5, 6, 7]\<rparr> [10, 11, 12, 13, 14, 15] 3
       = Some (\<lparr>fifo_in = 5, fifo_out = 1, fifo_mask = 3, fifo_esize = 2,
              fifo_data = [12, 13, 2, 3, 4, 5, 10, 11]\<rparr>, 2)
   \<and> kfifo_wf \<lparr>fifo_in = 5, fifo_out = 3, fifo_mask = 3, fifo_esize = 2,
              fifo_data = [12, 13, 2, 3, 4, 5, 10, 11]\<rparr>
   \<and> kfifo_len \<lparr>fifo_in = 5, fifo_out = 3, fifo_mask = 3, fifo_esize = 2,
              fifo_data = [12, 13, 2, 3, 4, 5, 10, 11]\<rparr> = 2
   \<and> kfifo_out \<lparr>fifo_in = 5, fifo_out = 3, fifo_mask = 3, fifo_esize = 2,
              fifo_data = [12, 13, 2, 3, 4, 5, 10, 11]\<rparr> [0, 0, 0, 0, 0, 0] 3
       = Some (\<lparr>fifo_in = 5, fifo_out = 5, fifo_mask = 3, fifo_esize = 2,
              fifo_data = [12, 13, 2, 3, 4, 5, 10, 11]\<rparr>, [10, 11, 12, 13, 0, 0], 2)"
proof -
  have e: ?thesis
    by (simp add: wf_example_4x2 kfifo_in_def kfifo_unused_def kfifo_copy_in_def memcpy_def
        kfifo_out_def kfifo_out_peek_def kfifo_copy_out_def kfifo_len_def)
  from kfifo_in_out_transfer [OF wf_example_4x2(1), of 2 3 "[10, 11, 12, 13, 14, 15]"]
    kfifo_in_out_transfer [OF wf_example_4x2(2), of _ _ _ 2 "[0, 0, 0, 0, 0, 0]"]
  show ?thesis by - (rule e)
qed

section \<open>Round trip\<close>

lemma kfifo_copy_in_segments:
  assumes "kfifo_geom f" "unat len \<le> unat (fifo_mask f) + 1"
    "unat len * unat (fifo_esize f) \<le> length src"
  shows "kfifo_copy_in f src len off =
     (let lenb = unat len * unat (fifo_esize f);
          offb = unat (off AND fifo_mask f) * unat (fifo_esize f);
          first = min lenb ((unat (fifo_mask f) + 1) * unat (fifo_esize f) - offb);
          d1 = take offb (fifo_data f) @ take first src @ drop (offb + first) (fifo_data f)
      in Some (f\<lparr>fifo_data := take (lenb - first) (drop first src) @ drop (lenb - first) d1\<rparr>))"
proof -
  let ?n = "unat len * unat (fifo_esize f)"
  have "length (take ?n src) = ?n" using assms(3) by simp
  moreover have "take l (take ?n src) = take l src" if "l \<le> ?n" for l
    using that by (simp add: min_absorb1)
  moreover have "drop l (take ?n src) = take (?n - l) (drop l src)" for l
    by (simp add: drop_take)
  ultimately show ?thesis
    unfolding kfifo_copy_in_ring [OF assms] ring_write_def Let_def by simp
qed

lemma kfifo_copy_out_segments:
  assumes "kfifo_geom f" "unat len \<le> unat (fifo_mask f) + 1"
    "unat len * unat (fifo_esize f) \<le> length dst"
  shows "kfifo_copy_out f dst len off =
     (let lenb = unat len * unat (fifo_esize f);
          offb = unat (off AND fifo_mask f) * unat (fifo_esize f);
          first = min lenb ((unat (fifo_mask f) + 1) * unat (fifo_esize f) - offb)
      in Some (take first (drop offb (fifo_data f)) @ take (lenb - first) (fifo_data f)
               @ drop lenb dst))"
  unfolding kfifo_copy_out_ring [OF assms] ring_read_def Let_def by simp

text \<open>
  C3. On a fifo that satisfies the invariants, every sequence of \<open>__kfifo_in\<close> calls
  followed by every sequence of \<open>__kfifo_out\<close> calls, each buffer holding the count
  of elements asked for, runs without undefined behaviour. When every enqueue returned
  the count it was asked for and the dequeues leave the fifo empty, the bytes the
  dequeues returned, in call order, are the bytes queued at the start (none for a fifo
  that starts empty) followed by the bytes the enqueues were given, in call order.
  The copies are the two-segment copy: \<open>first = min lenb (capacity_bytes - offb)\<close>
  bytes at the byte offset \<open>offb\<close>, then the remaining \<open>lenb - first\<close> bytes at
  offset 0, for a copy in and for a copy out.
\<close>

theorem kfifo_round_trip:
  assumes wf: "kfifo_wf f"
    and ins: "\<forall>(buf, len) \<in> set ins. unat len * unat (fifo_esize f) \<le> length buf"
    and reqs: "\<forall>(buf, len) \<in> set reqs. unat len * unat (fifo_esize f) \<le> length buf"
  shows "(\<exists>f1 rets f2 outs.
            kfifo_in_seq f ins = Some (f1, rets) \<and> kfifo_out_seq f1 reqs = Some (f2, outs) \<and>
            (rets = map snd ins \<and> kfifo_is_empty f2 \<longrightarrow>
               concat (map (\<lambda>(buf, r). take (unat r * unat (fifo_esize f)) buf) outs)
                 = kfifo_contents f
                     @ concat (map (\<lambda>(buf, len). take (unat len * unat (fifo_esize f)) buf) ins)))
       \<and> (kfifo_is_empty f \<longrightarrow> kfifo_contents f = [])
       \<and> (\<forall>src len off. unat len \<le> unat (fifo_mask f) + 1 \<and>
              unat len * unat (fifo_esize f) \<le> length src \<longrightarrow>
            kfifo_copy_in f src len off =
              (let lenb = unat len * unat (fifo_esize f);
                   offb = unat (off AND fifo_mask f) * unat (fifo_esize f);
                   first = min lenb ((unat (fifo_mask f) + 1) * unat (fifo_esize f) - offb);
                   d1 = take offb (fifo_data f) @ take first src @ drop (offb + first) (fifo_data f)
               in Some (f\<lparr>fifo_data := take (lenb - first) (drop first src) @ drop (lenb - first) d1\<rparr>)))
       \<and> (\<forall>dst len off. unat len \<le> unat (fifo_mask f) + 1 \<and>
              unat len * unat (fifo_esize f) \<le> length dst \<longrightarrow>
            kfifo_copy_out f dst len off =
              (let lenb = unat len * unat (fifo_esize f);
                   offb = unat (off AND fifo_mask f) * unat (fifo_esize f);
                   first = min lenb ((unat (fifo_mask f) + 1) * unat (fifo_esize f) - offb)
               in Some (take first (drop offb (fifo_data f)) @ take (lenb - first) (fifo_data f)
                        @ drop lenb dst)))"
proof (intro conjI)
  from kfifo_in_seq_contents [OF wf ins]
  obtain f1 rets where a: "kfifo_in_seq f ins = Some (f1, rets)" "kfifo_wf f1"
      "fifo_esize f1 = fifo_esize f"
      "rets = map snd ins \<longrightarrow>
         kfifo_contents f1 = kfifo_contents f
           @ concat (map (\<lambda>(buf, len). take (unat len * unat (fifo_esize f)) buf) ins)"
    by blast
  have "\<forall>(buf, len) \<in> set reqs. unat len * unat (fifo_esize f1) \<le> length buf"
    using reqs by (simp add: a(3))
  from kfifo_out_seq_contents [OF a(2) this]
  obtain f2 outs where b: "kfifo_out_seq f1 reqs = Some (f2, outs)" "kfifo_wf f2"
      "kfifo_contents f1
         = concat (map (\<lambda>(buf, r). take (unat r * unat (fifo_esize f1)) buf) outs)
             @ kfifo_contents f2"
    by blast
  have "concat (map (\<lambda>(buf, r). take (unat r * unat (fifo_esize f)) buf) outs)
      = kfifo_contents f
          @ concat (map (\<lambda>(buf, len). take (unat len * unat (fifo_esize f)) buf) ins)"
    if "rets = map snd ins" "kfifo_is_empty f2"
    using that a(4) b(3) contents_empty [OF b(2)] by (simp add: a(3))
  with a(1) b(1)
  show "\<exists>f1 rets f2 outs.
            kfifo_in_seq f ins = Some (f1, rets) \<and> kfifo_out_seq f1 reqs = Some (f2, outs) \<and>
            (rets = map snd ins \<and> kfifo_is_empty f2 \<longrightarrow>
               concat (map (\<lambda>(buf, r). take (unat r * unat (fifo_esize f)) buf) outs)
                 = kfifo_contents f
                     @ concat (map (\<lambda>(buf, len). take (unat len * unat (fifo_esize f)) buf) ins))"
    by blast
  show "kfifo_is_empty f \<longrightarrow> kfifo_contents f = []"
    using contents_empty [OF wf] by blast
  show "\<forall>src len off. unat len \<le> unat (fifo_mask f) + 1 \<and>
              unat len * unat (fifo_esize f) \<le> length src \<longrightarrow>
            kfifo_copy_in f src len off =
              (let lenb = unat len * unat (fifo_esize f);
                   offb = unat (off AND fifo_mask f) * unat (fifo_esize f);
                   first = min lenb ((unat (fifo_mask f) + 1) * unat (fifo_esize f) - offb);
                   d1 = take offb (fifo_data f) @ take first src @ drop (offb + first) (fifo_data f)
               in Some (f\<lparr>fifo_data := take (lenb - first) (drop first src) @ drop (lenb - first) d1\<rparr>))"
    using kfifo_copy_in_segments [OF wf_geom [OF wf]] by blast
  show "\<forall>dst len off. unat len \<le> unat (fifo_mask f) + 1 \<and>
              unat len * unat (fifo_esize f) \<le> length dst \<longrightarrow>
            kfifo_copy_out f dst len off =
              (let lenb = unat len * unat (fifo_esize f);
                   offb = unat (off AND fifo_mask f) * unat (fifo_esize f);
                   first = min lenb ((unat (fifo_mask f) + 1) * unat (fifo_esize f) - offb)
               in Some (take first (drop offb (fifo_data f)) @ take (lenb - first) (fifo_data f)
                        @ drop lenb dst))"
    using kfifo_copy_out_segments [OF wf_geom [OF wf]] by blast
qed

lemma wf_example_8:
  "kfifo_wf \<lparr>fifo_in = 6, fifo_out = 6, fifo_mask = 7, fifo_esize = 1,
              fifo_data = [0, 0, 0, 0, 0, 0, 0, 0]\<rparr>"
  by (auto simp: kfifo_wf_def kfifo_geom_def kfifo_len_def intro!: bexI [of _ 3])

theorem kfifo_round_trip_witness:
  "kfifo_wf \<lparr>fifo_in = 6, fifo_out = 6, fifo_mask = 7, fifo_esize = 1,
              fifo_data = [0, 0, 0, 0, 0, 0, 0, 0]\<rparr>
   \<and> kfifo_in_seq \<lparr>fifo_in = 6, fifo_out = 6, fifo_mask = 7, fifo_esize = 1,
                     fifo_data = [0, 0, 0, 0, 0, 0, 0, 0]\<rparr>
         [([1, 2, 3], 3), ([4, 5], 2)]
       = Some (\<lparr>fifo_in = 11, fifo_out = 6, fifo_mask = 7, fifo_esize = 1,
                 fifo_data = [3, 4, 5, 0, 0, 0, 1, 2]\<rparr>, [3, 2])
   \<and> kfifo_out_seq \<lparr>fifo_in = 11, fifo_out = 6, fifo_mask = 7, fifo_esize = 1,
                 fifo_data = [3, 4, 5, 0, 0, 0, 1, 2]\<rparr> [([0, 0], 2), ([0, 0, 0], 3)]
       = Some (\<lparr>fifo_in = 11, fifo_out = 11, fifo_mask = 7, fifo_esize = 1,
                 fifo_data = [3, 4, 5, 0, 0, 0, 1, 2]\<rparr>, [([1, 2], 2), ([3, 4, 5], 3)])
   \<and> kfifo_is_empty \<lparr>fifo_in = 11, fifo_out = 11, fifo_mask = 7, fifo_esize = 1,
                 fifo_data = [3, 4, 5, 0, 0, 0, 1, 2]\<rparr>"
proof -
  let ?f = "\<lparr>fifo_in = 6, fifo_out = 6, fifo_mask = 7, fifo_esize = 1,
              fifo_data = [0, 0, 0, 0, 0, 0, 0, 0]\<rparr>"
  let ?ins = "[([1, 2, 3], 3), ([4, 5], 2)] :: (u8 list \<times> u32) list"
  let ?reqs = "[([0, 0], 2), ([0, 0, 0], 3)] :: (u8 list \<times> u32) list"
  have i: "\<forall>(buf, len) \<in> set ?ins. unat len * unat (fifo_esize ?f) \<le> length buf" by simp
  have r: "\<forall>(buf, len) \<in> set ?reqs. unat len * unat (fifo_esize ?f) \<le> length buf" by simp
  have e: ?thesis
    by (simp add: wf_example_8 kfifo_in_def kfifo_unused_def kfifo_copy_in_def memcpy_def
        kfifo_out_def kfifo_out_peek_def kfifo_copy_out_def kfifo_is_empty_def)
  from kfifo_round_trip [OF wf_example_8 i r] show ?thesis by - (rule e)
qed

section \<open>The record layer\<close>

lemma hdr_decode_1: "(ucast (ucast (x :: u32) :: u8) :: u32) = take_bit 8 x"
  by (rule bit_word_eqI) (auto simp: bit_simps)

lemma unat_take_bit_32: "unat (take_bit n (x :: u32)) = unat x mod 2 ^ n"
proof -
  have "unat (take_bit n x) = take_bit n (unat x)"
    by (rule unsigned_take_bit_eq)
  then show ?thesis by (simp only: take_bit_eq_mod)
qed

lemma recsize_cases:
  assumes "recsize = 1 \<or> recsize = (2 :: size_t)"
  shows "unat recsize = 1 \<or> unat recsize = 2"
    and "unat (ucast recsize :: u32) = unat recsize"
    and "recsize > 1 \<longleftrightarrow> recsize = 2"
    and "recsize - 1 \<noteq> 0 \<longleftrightarrow> recsize = 2"
    and "0 < unat recsize" "unat recsize \<le> 2"
  using assms by auto

lemma in_r_condition:
  assumes "recsize = 1 \<or> recsize = (2 :: size_t)"
  shows "((ucast (len :: u32) :: size_t) + recsize > ucast (u :: u32))
     \<longleftrightarrow> unat len + unat recsize > unat u"
  by (simp add: word_less_nat_alt unat_len_plus_recsize [OF assms] unat_ucast_up)

lemma wf_pos:
  assumes "kfifo_wf f" "t < 2 ^ 32"
  shows "unat ((x + of_nat t) AND fifo_mask f) = (unat x + t) mod (unat (fifo_mask f) + 1)"
  using assms(2) by (simp add: wf_and_mask_add [OF assms(1)] unat_of_nat)

lemma wf_mask_lt_length:
  assumes "kfifo_wf f" "fifo_esize f = 1"
  shows "unat (fifo_mask f) < length (fifo_data f)"
  using wf_geom [OF assms(1)] by (simp add: kfifo_geom_def assms(2))

lemma KFIFO_POKE_in_range:
  assumes "unat msk < length d"
  shows "KFIFO_POKE d i msk v = Some (d[unat (i AND msk) := ucast v])"
proof -
  have "unat (i AND msk) \<le> unat msk"
    by (simp add: word_and_le1 flip: word_le_nat_alt)
  with assms show ?thesis by (simp add: KFIFO_POKE_def)
qed

lemma kfifo_poke_n_in_range:
  assumes "unat (fifo_mask f) < length (fifo_data f)"
  shows "kfifo_poke_n f n recsize =
     Some (f\<lparr>fifo_data :=
        (if recsize > 1
         then (fifo_data f)[unat (fifo_in f AND fifo_mask f) := ucast n,
                            unat ((fifo_in f + 1) AND fifo_mask f) := ucast (drop_bit 8 n)]
         else (fifo_data f)[unat (fifo_in f AND fifo_mask f) := ucast n])\<rparr>)"
  using assms
  by (simp add: kfifo_poke_n_def KFIFO_POKE_in_range)

lemma length_rec_hdr_write: "length (rec_hdr_write f n recsize) = length (fifo_data f)"
  by (simp add: rec_hdr_write_def)

lemma kfifo_in_r_reject:
  assumes rs: "recsize = 1 \<or> recsize = 2"
    and full: "unat len + unat recsize > unat (kfifo_unused f)"
  shows "kfifo_in_r f buf len recsize = Some (f, 0)"
  using full by (simp add: kfifo_in_r_def in_r_condition [OF rs])

lemma kfifo_in_r_accept:
  assumes wf: "kfifo_wf f" and es: "fifo_esize f = 1" and rs: "recsize = 1 \<or> recsize = 2"
    and fits: "unat len + unat recsize \<le> unat (kfifo_unused f)"
    and buf: "unat len \<le> length buf"
  shows "kfifo_in_r f buf len recsize =
     Some (f\<lparr>fifo_data := ring_write (rec_hdr_write f len recsize) (unat (fifo_mask f) + 1)
                 (unat ((fifo_in f + ucast recsize) AND fifo_mask f)) (take (unat len) buf),
             fifo_in := fifo_in f + len + ucast recsize\<rparr>, len)"
proof -
  let ?f1 = "f\<lparr>fifo_data := rec_hdr_write f len recsize\<rparr>"
  have p: "kfifo_poke_n f len recsize = Some ?f1"
    unfolding rec_hdr_write_def by (rule kfifo_poke_n_in_range [OF wf_mask_lt_length [OF wf es]])
  have g1: "kfifo_geom ?f1"
    using wf_geom [OF wf] by (simp add: kfifo_geom_def length_rec_hdr_write)
  have "unat len \<le> unat (kfifo_unused f)" using fits by simp
  then have lc: "unat len \<le> unat (fifo_mask ?f1) + 1"
    using wf_unused [OF wf] by simp
  have lb: "unat len * unat (fifo_esize ?f1) \<le> length buf" using buf by (simp add: es)
  note c = kfifo_copy_in_ring [OF g1 lc lb, of "fifo_in f + ucast recsize"]
  have n: "\<not> (ucast len :: size_t) + recsize > ucast (kfifo_unused f)"
    using fits by (simp add: in_r_condition [OF rs])
  show ?thesis
    unfolding kfifo_in_r_def using n
    by (simp add: p ucast_size_t_add ucast_size_t_add2 c es)
qed

lemma in_r_data:
  assumes wf: "kfifo_wf f" and es: "fifo_esize f = 1" and rs: "recsize = 1 \<or> recsize = 2"
    and fits: "unat len + unat recsize \<le> unat (kfifo_unused f)"
    and buf: "unat len \<le> length buf"
  defines "c \<equiv> unat (fifo_mask f) + 1"
  defines "d \<equiv> ring_write (rec_hdr_write f len recsize) c
                 (unat ((fifo_in f + ucast recsize) AND fifo_mask f)) (take (unat len) buf)"
  shows "length d = length (fifo_data f)"
    and "\<forall>i < unat len. d ! ((unat (fifo_in f) + (unat recsize + i)) mod c) = buf ! i"
    and "d ! (unat (fifo_in f) mod c) = ucast len"
    and "recsize = 2 \<longrightarrow> d ! ((unat (fifo_in f) + 1) mod c) = ucast (drop_bit 8 len)"
    and "\<forall>j < length d. (\<forall>t < unat len + unat recsize. j \<noteq> (unat (fifo_in f) + t) mod c)
            \<longrightarrow> d ! j = fifo_data f ! j"
proof -
  let ?h = "rec_hdr_write f len recsize"
  let ?off = "unat ((fifo_in f + ucast recsize) AND fifo_mask f)"
  let ?bs = "take (unat len) buf"
  let ?p = "\<lambda>t. (unat (fifo_in f) + t) mod c"
  note r = recsize_cases [OF rs]
  have c2: "2 \<le> c" unfolding c_def by (rule wf_cap_ge2 [OF wf])
  have ch: "c \<le> length ?h"
    using wf_mask_lt_length [OF wf es] by (simp add: c_def length_rec_hdr_write)
  have off: "?off = ?p (unat recsize)"
    by (simp add: wf_and_mask_add [OF wf] r(2) c_def)
  have offc: "?off < c" unfolding off using c2 by simp
  have lbs: "length ?bs = unat len" using buf by simp
  have tot: "unat len + unat recsize \<le> c"
    using fits wf_unused [OF wf] by (simp add: c_def)
  then have lc: "length ?bs \<le> c" by (simp add: lbs)
  have pos: "(?off + i) mod c = ?p (unat recsize + i)" for i
    unfolding off by (simp add: mod_add_left_eq add.assoc)
  show ld: "length d = length (fifo_data f)"
    unfolding d_def by (simp add: length_ring_write [OF offc ch lc] length_rec_hdr_write)
  show "\<forall>i < unat len. d ! (?p (unat recsize + i)) = buf ! i"
    using nth_ring_write_image [OF offc ch lc] buf unfolding d_def pos
    by (simp add: lbs)
  have hdr_pos: "d ! ?p t = ?h ! ?p t" if "t < unat recsize" for t
  proof -
    have "?p t \<noteq> (?off + i) mod c" if "i < length ?bs" for i
    proof
      assume "?p t = (?off + i) mod c"
      then have "?p t = ?p (unat recsize + i)" by (simp only: pos)
      moreover have "t < c" "unat recsize + i < c"
        using \<open>t < unat recsize\<close> that tot by (simp_all add: lbs)
      ultimately have "t = unat recsize + i" by (rule mod_add_inj [rotated 2])
      with \<open>t < unat recsize\<close> show False by simp
    qed
    moreover have "?p t < c" using c2 by simp
    then have "?p t < length ?h" using ch by simp
    ultimately show ?thesis unfolding d_def
      by (intro nth_ring_write_other [OF offc ch lc]) auto
  qed
  have i0: "unat (fifo_in f AND fifo_mask f) = ?p 0"
    by (simp add: wf_and_mask [OF wf] c_def)
  have i1: "unat ((fifo_in f + 1) AND fifo_mask f) = ?p 1"
    by (simp add: wf_and_mask_add [OF wf] c_def)
  have p01: "?p 0 \<noteq> ?p 1"
  proof
    assume "?p 0 = ?p 1"
    moreover have "(0::nat) < c" "(1::nat) < c" using c2 by simp_all
    ultimately have "(0::nat) = 1" by (rule mod_add_inj [rotated 2])
    then show False by simp
  qed
  have pc: "?p t < c" for t using c2 by simp
  have pl: "?p t < length (fifo_data f)" for t
    using ch pc [of t] by (simp add: length_rec_hdr_write)
  have h0: "?h ! ?p 0 = ucast len"
    using pl [of 0] p01 by (simp add: rec_hdr_write_def i0 i1)
  have h1: "recsize = 2 \<Longrightarrow> ?h ! ?p 1 = ucast (drop_bit 8 len)"
    using pl [of 1] by (simp add: rec_hdr_write_def i0 i1)
  show "d ! (unat (fifo_in f) mod c) = ucast len"
    using hdr_pos [of 0] h0 r(5) by simp
  show "recsize = 2 \<longrightarrow> d ! ((unat (fifo_in f) + 1) mod c) = ucast (drop_bit 8 len)"
    using hdr_pos [of 1] h1 by auto
  show "\<forall>j < length d. (\<forall>t < unat len + unat recsize. j \<noteq> ?p t) \<longrightarrow> d ! j = fifo_data f ! j"
  proof (intro allI impI)
    fix j assume j: "j < length d" and o: "\<forall>t < unat len + unat recsize. j \<noteq> ?p t"
    have "\<forall>i < length ?bs. j \<noteq> (?off + i) mod c"
      using o unfolding pos by (simp add: lbs)
    moreover have "j < length ?h" using j ld by (simp add: length_rec_hdr_write)
    ultimately have "d ! j = ?h ! j"
      unfolding d_def by (intro nth_ring_write_other [OF offc ch lc]) 
    moreover have "j \<noteq> ?p 0" using o r(5) by auto
    moreover have "recsize = 2 \<Longrightarrow> j \<noteq> ?p 1" using o by auto
    ultimately show "d ! j = fifo_data f ! j"
      using rs by (auto simp: rec_hdr_write_def i0 i1)
  qed
qed

lemma wf_unat_add_mod:
  fixes x y :: u32
  assumes "kfifo_wf f"
  shows "unat (x + y) mod (unat (fifo_mask f) + 1) = (unat x + unat y) mod (unat (fifo_mask f) + 1)"
  using wf_and_mask_add [OF assms, of x y] by (simp add: wf_and_mask [OF assms])

lemma wf_pos2:
  fixes x y :: u32
  assumes "kfifo_wf f" "t < 2 ^ 32"
  shows "unat ((x + y + of_nat t) AND fifo_mask f) = (unat x + (unat y + t)) mod (unat (fifo_mask f) + 1)"
proof -
  let ?c = "unat (fifo_mask f) + 1"
  have "unat ((x + y + of_nat t) AND fifo_mask f) = (unat (x + y) + t) mod ?c"
    by (rule wf_pos [OF assms])
  also have "\<dots> = (unat (x + y) mod ?c + t) mod ?c" by (simp add: mod_add_left_eq)
  also have "\<dots> = ((unat x + unat y) mod ?c + t) mod ?c"
    by (simp only: wf_unat_add_mod [OF assms(1)])
  also have "\<dots> = (unat x + (unat y + t)) mod ?c" by (simp add: mod_add_left_eq add.assoc)
  finally show ?thesis .
qed


lemma kfifo_max_r_1_2:
  "kfifo_max_r len 1 = Some (if len > 255 then 255 else len)"
  "kfifo_max_r len 2 = Some (if len > 65535 then 65535 else len)"
  by (simp_all add: kfifo_max_r_def)

lemma hdr_decode_2_take_bit:
  "take_bit 8 (x :: u32) OR push_bit 8 (take_bit 8 (drop_bit 8 x)) = take_bit 16 x"
  by (rule bit_word_eqI) (auto simp: bit_simps)

lemma take_bit_neq:
  fixes x :: u32
  assumes "2 ^ n \<le> unat x"
  shows "take_bit n x \<noteq> x"
proof
  assume "take_bit n x = x"
  then have "unat x = unat x mod 2 ^ n" using unat_take_bit_32 [of n x] by simp
  moreover have "unat x mod 2 ^ n < 2 ^ n" by simp
  ultimately show False using assms by simp
qed

lemma kfifo_out_r_empty:
  assumes "fifo_in f = fifo_out f"
  shows "kfifo_out_r f buf len recsize = Some (f, buf, 0)"
  using assms by (simp add: kfifo_out_r_def)

lemma kfifo_out_copy_r_ring:
  assumes wf: "kfifo_wf f" and es: "fifo_esize f = 1"
    and n: "kfifo_peek_n f recsize = Some n"
    and cap: "unat (min len n) \<le> unat (fifo_mask f) + 1"
    and buf: "unat (min len n) \<le> length buf"
  shows "kfifo_out_copy_r f buf len recsize =
     Some (ring_read (fifo_data f) (unat (fifo_mask f) + 1)
             (unat ((fifo_out f + ucast recsize) AND fifo_mask f)) (unat (min len n))
           @ drop (unat (min len n)) buf, min len n, n)"
proof -
  have lb: "unat (min len n) * unat (fifo_esize f) \<le> length buf" using buf by (simp add: es)
  note c = kfifo_copy_out_ring [OF wf_geom [OF wf] cap lb, of "fifo_out f + ucast recsize"]
  show ?thesis
    by (simp add: kfifo_out_copy_r_def n if_gt_min ucast_size_t_add c es Let_def)
qed

lemma kfifo_out_r_ring:
  assumes wf: "kfifo_wf f" and es: "fifo_esize f = 1"
    and ne: "fifo_in f \<noteq> fifo_out f"
    and n: "kfifo_peek_n f recsize = Some n"
    and cap: "unat (min len n) \<le> unat (fifo_mask f) + 1"
    and buf: "unat (min len n) \<le> length buf"
  shows "kfifo_out_r f buf len recsize =
     Some (f\<lparr>fifo_out := fifo_out f + n + ucast recsize\<rparr>,
           ring_read (fifo_data f) (unat (fifo_mask f) + 1)
             (unat ((fifo_out f + ucast recsize) AND fifo_mask f)) (unat (min len n))
           @ drop (unat (min len n)) buf, min len n)"
  using ne
  by (simp add: kfifo_out_r_def kfifo_out_copy_r_ring [OF wf es n cap buf] ucast_size_t_add2)


lemma wf_size:
  assumes "kfifo_wf f"
  shows "unat (kfifo_len f) \<le> unat (kfifo_size f)"
  using wf_len_le [OF assms] geom_cap_lt(2) [OF wf_geom [OF assms]]
  by (simp add: kfifo_size_def)

lemma wf_reset: "kfifo_wf f \<Longrightarrow> kfifo_wf (kfifo_reset f)"
  by (simp add: kfifo_wf_def kfifo_geom_def kfifo_reset_def kfifo_len_def)

lemma wf_reset_out: "kfifo_wf f \<Longrightarrow> kfifo_wf (kfifo_reset_out f)"
  by (simp add: kfifo_wf_def kfifo_geom_def kfifo_reset_out_def kfifo_len_def)

lemma unat_plus_recsize:
  fixes n :: u32
  assumes rs: "recsize = 1 \<or> recsize = (2 :: size_t)" and "unat n + unat recsize < 2 ^ 32"
  shows "unat (n + ucast recsize) = unat n + unat recsize"
  using assms(2) by (simp add: unat_word_ariths recsize_cases(2) [OF rs])

lemma wf_in_r:
  assumes wf: "kfifo_wf f" and es: "fifo_esize f = 1" and rs: "recsize = 1 \<or> recsize = 2"
    and buf: "unat len \<le> length buf"
  shows "\<exists>f' r. kfifo_in_r f buf len recsize = Some (f', r) \<and> kfifo_wf f'"
proof (cases "unat len + unat recsize > unat (kfifo_unused f)")
  case True
  then show ?thesis using kfifo_in_r_reject [OF rs True] wf by simp
next
  case False
  then have fits: "unat len + unat recsize \<le> unat (kfifo_unused f)" by simp
  let ?d = "ring_write (rec_hdr_write f len recsize) (unat (fifo_mask f) + 1)
                 (unat ((fifo_in f + ucast recsize) AND fifo_mask f)) (take (unat len) buf)"
  note k = kfifo_in_r_accept [OF wf es rs fits buf]
  note d = in_r_data(1) [OF wf es rs fits buf]
  have "unat len + unat recsize < 2 ^ 32" using fits unat_lt_32 [of "kfifo_unused f"] by simp
  then have "unat (len + ucast recsize) \<le> unat (kfifo_unused f)"
    using fits by (simp add: unat_plus_recsize [OF rs])
  from wf_update_in(1) [OF wf this d]
  have "kfifo_wf (f\<lparr>fifo_data := ?d, fifo_in := fifo_in f + len + ucast recsize\<rparr>)"
    by (simp add: add.assoc)
  with k show ?thesis by simp
qed

lemma wf_advance_out:
  fixes recsize :: size_t and n :: u32
  assumes wf: "kfifo_wf f" and rs: "recsize = 1 \<or> recsize = 2"
    and whole: "unat n + unat recsize \<le> unat (kfifo_len f)"
  shows "kfifo_wf (f\<lparr>fifo_out := fifo_out f + n + ucast recsize\<rparr>)"
proof -
  have "unat n + unat recsize < 2 ^ 32" using whole unat_lt_32 [of "kfifo_len f"] by simp
  then have "unat (n + ucast recsize) \<le> unat (kfifo_len f)"
    using whole by (simp add: unat_plus_recsize [OF rs])
  from wf_update_out(1) [OF wf this] show ?thesis by (simp add: add.assoc)
qed

lemma wf_out_r:
  assumes wf: "kfifo_wf f" and es: "fifo_esize f = 1" and rs: "recsize = 1 \<or> recsize = 2"
    and c: "kfifo_is_empty f \<or>
        (kfifo_len_r f recsize = Some n \<and> unat n + unat recsize \<le> unat (kfifo_len f) \<and>
         unat (min len n) \<le> length buf)"
  shows "\<exists>f' buf' r. kfifo_out_r f buf len recsize = Some (f', buf', r) \<and> kfifo_wf f'"
proof (cases "kfifo_is_empty f")
  case True
  then show ?thesis using wf by (simp add: kfifo_is_empty_def kfifo_out_r_empty)
next
  case False
  with c have n: "kfifo_peek_n f recsize = Some n"
    and whole: "unat n + unat recsize \<le> unat (kfifo_len f)"
    and buf: "unat (min len n) \<le> length buf"
    by (simp_all add: kfifo_len_r_def)
  have ne: "fifo_in f \<noteq> fifo_out f" using False by (simp add: kfifo_is_empty_def)
  have "unat (min len n) \<le> unat n" by (simp add: unat_min)
  then have cap: "unat (min len n) \<le> unat (fifo_mask f) + 1"
    using whole wf_len_le [OF wf] by simp
  from kfifo_out_r_ring [OF wf es ne n cap buf] wf_advance_out [OF wf rs whole]
  show ?thesis by simp
qed

lemma wf_skip_r:
  assumes wf: "kfifo_wf f" and rs: "recsize = 1 \<or> recsize = 2"
    and n: "kfifo_len_r f recsize = Some n"
    and whole: "unat n + unat recsize \<le> unat (kfifo_len f)"
  shows "\<exists>f'. kfifo_skip_r f recsize = Some f' \<and> kfifo_wf f'"
  using n wf_advance_out [OF wf rs whole]
  by (simp add: kfifo_skip_r_def kfifo_len_r_def ucast_size_t_add2)

lemma in_r_contents:
  assumes wf: "kfifo_wf f" and es: "fifo_esize f = 1" and rs: "recsize = 1 \<or> recsize = 2"
    and fits: "unat len + unat recsize \<le> unat (kfifo_unused f)"
    and buf: "unat len \<le> length buf"
  defines "c \<equiv> unat (fifo_mask f) + 1"
  defines "d \<equiv> ring_write (rec_hdr_write f len recsize) c
                 (unat ((fifo_in f + ucast recsize) AND fifo_mask f)) (take (unat len) buf)"
  defines "f' \<equiv> f\<lparr>fifo_data := d, fifo_in := fifo_in f + len + ucast recsize\<rparr>"
  shows "unat (kfifo_len f') = unat (kfifo_len f) + unat recsize + unat len"
    and "kfifo_contents f' = kfifo_contents f
           @ (if recsize = 2 then [ucast len, ucast (drop_bit 8 len)] else [ucast len])
           @ take (unat len) buf"
proof -
  let ?nq = "unat (kfifo_len f)"
  let ?ob = "unat (fifo_out f AND fifo_mask f)"
  let ?hs = "unat recsize"
  let ?hdr = "if recsize = 2 then [ucast len, ucast (drop_bit 8 len)] else [ucast len :: u8]"
  note r = recsize_cases [OF rs]
  note dd = in_r_data [OF wf es rs fits buf, folded c_def, folded d_def]
  note g = wf_geom [OF wf]
  have lt32: "unat len + ?hs < 2 ^ 32"
    using fits unat_lt_32 [of "kfifo_unused f"] by simp
  have ur: "unat (len + ucast recsize) = unat len + ?hs"
    by (rule unat_plus_recsize [OF rs lt32])
  have f': "f' = f\<lparr>fifo_data := d, fifo_in := fifo_in f + (len + ucast recsize)\<rparr>"
    by (simp add: f'_def add.assoc)
  have rle: "unat (len + ucast recsize) \<le> unat (kfifo_unused f)"
    using fits by (simp add: ur)
  note u = wf_update_in [OF wf rle dd(1), folded f']
  show n': "unat (kfifo_len f') = ?nq + ?hs + unat len"
    using u(2) by (simp add: ur)
  have tot: "?nq + ?hs + unat len \<le> c"
    using fits wf_unused [OF wf] wf_len_le [OF wf] by (simp add: c_def)
  have cd: "c \<le> length (fifo_data f)"
    using wf_mask_lt_length [OF wf es] by (simp add: c_def)
  have cd': "c \<le> length d" using cd by (simp add: dd(1))
  have ob: "?ob < c"
    using byte_off_lt [OF g, of "fifo_out f"] by (simp add: es c_def)
  have inpos: "unat (fifo_in f) mod c = (?ob + ?nq) mod c"
    using wf_in_off [OF wf] by (simp add: es c_def wf_and_mask [OF wf])
  have pos: "(unat (fifo_in f) + t) mod c = (?ob + (?nq + t)) mod c" for t
  proof -
    have "(unat (fifo_in f) + t) mod c = (unat (fifo_in f) mod c + t) mod c"
      by (simp add: mod_add_left_eq)
    also have "\<dots> = ((?ob + ?nq) mod c + t) mod c" by (simp only: inpos)
    also have "\<dots> = (?ob + (?nq + t)) mod c" by (simp add: mod_add_left_eq add.assoc)
    finally show ?thesis .
  qed
  have c1: "kfifo_contents f' = ring_read d c ?ob (?nq + ?hs + unat len)"
    unfolding kfifo_contents_def n' by (simp add: f'_def es c_def)
  have c0: "kfifo_contents f = ring_read (fifo_data f) c ?ob ?nq"
    by (simp add: kfifo_contents_def es c_def)
  have nqc: "?nq \<le> c" using tot by simp
  have l0: "length (kfifo_contents f) = ?nq"
    unfolding c0 by (rule length_ring_read [OF ob cd nqc])
  have l1: "length (kfifo_contents f') = ?nq + ?hs + unat len"
    unfolding c1 by (rule length_ring_read [OF ob cd' tot])
  have lh: "length ?hdr = ?hs" using rs by auto
  have lb: "length (take (unat len) buf) = unat len" using buf by simp
  show "kfifo_contents f' = kfifo_contents f @ ?hdr @ take (unat len) buf"
  proof (rule nth_equalityI)
    show "length (kfifo_contents f') = length (kfifo_contents f @ ?hdr @ take (unat len) buf)"
      unfolding length_append l0 l1 lh lb by simp
  next
    fix i assume "i < length (kfifo_contents f')"
    then have i: "i < ?nq + ?hs + unat len" by (simp only: l1)
    have a: "kfifo_contents f' ! i = d ! ((?ob + i) mod c)"
      unfolding c1 by (rule nth_ring_read [OF ob cd' tot i])
    consider (old) "i < ?nq" | (hdr) "?nq \<le> i" "i < ?nq + ?hs" | (pay) "?nq + ?hs \<le> i"
      by linarith
    then show "kfifo_contents f' ! i = (kfifo_contents f @ ?hdr @ take (unat len) buf) ! i"
    proof cases
      case old
      have pl: "(?ob + i) mod c < length d" using ob cd' by (simp add: less_le_trans [OF mod_less_divisor])
      have "\<forall>t < unat len + ?hs. (?ob + i) mod c \<noteq> (unat (fifo_in f) + t) mod c"
      proof (intro allI impI notI)
        fix t assume t: "t < unat len + ?hs"
          and e: "(?ob + i) mod c = (unat (fifo_in f) + t) mod c"
        have "(?ob + i) mod c = (?ob + (?nq + t)) mod c" using e by (simp only: pos)
        moreover have "i < c" "?nq + t < c" using old t tot by simp_all
        ultimately have "i = ?nq + t" by (rule mod_add_inj [rotated 2])
        with old show False by simp
      qed
      with dd(5) pl have "d ! ((?ob + i) mod c) = fifo_data f ! ((?ob + i) mod c)" by blast
      also have "\<dots> = kfifo_contents f ! i"
        unfolding c0 by (rule nth_ring_read [OF ob cd nqc old, symmetric])
      finally show ?thesis using old by (simp add: a nth_append l0)
    next
      case hdr
      define t where "t = i - ?nq"
      have t: "t < ?hs" "i = ?nq + t" using hdr by (simp_all add: t_def)
      have p: "(?ob + i) mod c = (unat (fifo_in f) + t) mod c"
        unfolding t(2) by (rule pos [symmetric])
      have "d ! ((unat (fifo_in f) + t) mod c) = ?hdr ! t"
        using t(1) r(1) rs dd(3,4) by (auto simp: less_Suc_eq numeral_2_eq_2)
      then show ?thesis
        using hdr t(1) by (simp add: a p nth_append l0 lh t_def)
    next
      case pay
      define k where "k = i - (?nq + ?hs)"
      have k: "k < unat len" "i = ?nq + (?hs + k)" using pay i by (simp_all add: k_def)
      have p: "(?ob + i) mod c = (unat (fifo_in f) + (?hs + k)) mod c"
        unfolding k(2) by (rule pos [symmetric])
      have "d ! ((unat (fifo_in f) + (?hs + k)) mod c) = buf ! k"
        using dd(2) k(1) by simp
      moreover have "(kfifo_contents f @ ?hdr @ take (unat len) buf) ! i = take (unat len) buf ! k"
      proof -
        have "\<not> i < length (kfifo_contents f)" using pay by (simp add: l0)
        then have "(kfifo_contents f @ ?hdr @ take (unat len) buf) ! i
            = (?hdr @ take (unat len) buf) ! (i - ?nq)"
          by (simp only: nth_append l0 if_False)
        also have "\<not> i - ?nq < length ?hdr" unfolding lh using pay by simp
        then have "(?hdr @ take (unat len) buf) ! (i - ?nq) = take (unat len) buf ! (i - ?nq - ?hs)"
          by (simp only: nth_append lh if_False)
        also have "i - ?nq - ?hs = k" by (simp add: k_def)
        finally show ?thesis .
      qed
      ultimately show ?thesis
        using k(1) by (simp add: a p)
    qed
  qed
qed

section \<open>Records: enqueue, dequeue, and the occupancy invariant\<close>

text \<open>
  C4. \<open>__kfifo_in_r\<close> with a header width of 1 or 2. When \<open>len + recsize\<close> exceeds
  \<open>kfifo_unused\<close> the call returns 0 and leaves the fifo as it was: no index moves,
  no byte of the buffer is written. Otherwise, on a byte fifo that satisfies the
  invariants and with \<open>len\<close> bytes of payload at hand, it returns \<open>len\<close> and advances
  \<open>in\<close> by \<open>len + recsize\<close> in one step; the buffer then holds the low byte of
  \<open>len\<close> at \<open>in & mask\<close>, for a width of 2 the next byte of \<open>len\<close> at
  \<open>(in + 1) & mask\<close>, payload byte \<open>i\<close> at \<open>(in + recsize + i) & mask\<close>, and is
  unchanged outside these \<open>len + recsize\<close> offsets.
\<close>

theorem kfifo_in_r_all_or_nothing:
  assumes rs: "recsize = 1 \<or> recsize = 2"
  shows "(unat len + unat recsize > unat (kfifo_unused f) \<longrightarrow>
            kfifo_in_r f buf len recsize = Some (f, 0))
       \<and> (kfifo_wf f \<and> fifo_esize f = 1 \<and>
          unat len + unat recsize \<le> unat (kfifo_unused f) \<and> unat len \<le> length buf \<longrightarrow>
            (\<exists>d. kfifo_in_r f buf len recsize
                   = Some (f\<lparr>fifo_data := d, fifo_in := fifo_in f + len + ucast recsize\<rparr>, len) \<and>
               length d = length (fifo_data f) \<and>
               d ! unat (fifo_in f AND fifo_mask f) = ucast len \<and>
               (recsize = 2 \<longrightarrow>
                  d ! unat ((fifo_in f + 1) AND fifo_mask f) = ucast (drop_bit 8 len)) \<and>
               (\<forall>i < unat len.
                  d ! unat ((fifo_in f + ucast recsize + of_nat i) AND fifo_mask f) = buf ! i) \<and>
               (\<forall>j < length d.
                  (\<forall>t < unat len + unat recsize. j \<noteq> unat ((fifo_in f + of_nat t) AND fifo_mask f))
                  \<longrightarrow> d ! j = fifo_data f ! j)))"
proof (intro conjI impI)
  assume "unat len + unat recsize > unat (kfifo_unused f)"
  then show "kfifo_in_r f buf len recsize = Some (f, 0)"
    by (rule kfifo_in_r_reject [OF rs])
next
  assume a: "kfifo_wf f \<and> fifo_esize f = 1 \<and>
          unat len + unat recsize \<le> unat (kfifo_unused f) \<and> unat len \<le> length buf"
  then have wf: "kfifo_wf f" and es: "fifo_esize f = 1"
    and fits: "unat len + unat recsize \<le> unat (kfifo_unused f)" and buf: "unat len \<le> length buf"
    by simp_all
  let ?c = "unat (fifo_mask f) + 1"
  let ?d = "ring_write (rec_hdr_write f len recsize) ?c
                 (unat ((fifo_in f + ucast recsize) AND fifo_mask f)) (take (unat len) buf)"
  note r = recsize_cases [OF rs]
  note k = kfifo_in_r_accept [OF wf es rs fits buf]
  note d = in_r_data [OF wf es rs fits buf]
  have lt: "t < 2 ^ 32" if "t < unat len + unat recsize" for t
  proof -
    have "unat (kfifo_unused f) < 2 ^ 32" by (rule unat_lt_32)
    with that fits show ?thesis by simp
  qed
  have p1: "unat (fifo_in f AND fifo_mask f) = unat (fifo_in f) mod ?c"
    by (rule wf_and_mask [OF wf])
  have p2: "unat ((fifo_in f + 1) AND fifo_mask f) = (unat (fifo_in f) + 1) mod ?c"
    by (simp add: wf_and_mask_add [OF wf])
  have p3: "unat ((fifo_in f + ucast recsize + of_nat i) AND fifo_mask f)
      = (unat (fifo_in f) + (unat recsize + i)) mod ?c" if "i < unat len" for i
    using wf_pos2 [OF wf lt, of i "fifo_in f" "ucast recsize"] that by (simp add: r(2))
  have p4: "unat ((fifo_in f + of_nat t) AND fifo_mask f) = (unat (fifo_in f) + t) mod ?c"
    if "t < unat len + unat recsize" for t
    by (rule wf_pos [OF wf lt [OF that]])
  have "length ?d = length (fifo_data f)" by (rule d(1))
  moreover have "?d ! unat (fifo_in f AND fifo_mask f) = ucast len"
    unfolding p1 by (rule d(3))
  moreover have "recsize = 2 \<longrightarrow> ?d ! unat ((fifo_in f + 1) AND fifo_mask f) = ucast (drop_bit 8 len)"
    unfolding p2 by (rule d(4))
  moreover have "\<forall>i < unat len.
      ?d ! unat ((fifo_in f + ucast recsize + of_nat i) AND fifo_mask f) = buf ! i"
    using d(2) by (simp add: p3)
  moreover have "\<forall>j < length ?d.
      (\<forall>t < unat len + unat recsize. j \<noteq> unat ((fifo_in f + of_nat t) AND fifo_mask f))
      \<longrightarrow> ?d ! j = fifo_data f ! j"
    using d(5) by (simp add: p4)
  moreover note k
  ultimately show "\<exists>d. kfifo_in_r f buf len recsize
                   = Some (f\<lparr>fifo_data := d, fifo_in := fifo_in f + len + ucast recsize\<rparr>, len) \<and>
               length d = length (fifo_data f) \<and>
               d ! unat (fifo_in f AND fifo_mask f) = ucast len \<and>
               (recsize = 2 \<longrightarrow>
                  d ! unat ((fifo_in f + 1) AND fifo_mask f) = ucast (drop_bit 8 len)) \<and>
               (\<forall>i < unat len.
                  d ! unat ((fifo_in f + ucast recsize + of_nat i) AND fifo_mask f) = buf ! i) \<and>
               (\<forall>j < length d.
                  (\<forall>t < unat len + unat recsize. j \<noteq> unat ((fifo_in f + of_nat t) AND fifo_mask f))
                  \<longrightarrow> d ! j = fifo_data f ! j)"
    by (intro exI [of _ ?d] conjI) assumption+
qed

lemma wf_example_rec:
  "kfifo_wf \<lparr>fifo_in = 0, fifo_out = 0, fifo_mask = 7, fifo_esize = 1,
              fifo_data = [0, 0, 0, 0, 0, 0, 0, 0]\<rparr>"
  "kfifo_wf \<lparr>fifo_in = 7, fifo_out = 7, fifo_mask = 7, fifo_esize = 1,
              fifo_data = [0, 0, 0, 0, 0, 0, 0, 0]\<rparr>"
  "kfifo_wf \<lparr>fifo_in = 5, fifo_out = 0, fifo_mask = 7, fifo_esize = 1,
              fifo_data = [2, 65, 66, 1, 67, 0, 0, 0]\<rparr>"
  by (auto simp: kfifo_wf_def kfifo_geom_def kfifo_len_def intro!: bexI [of _ 3])

theorem kfifo_in_r_all_or_nothing_witness:
  "kfifo_unused \<lparr>fifo_in = 0, fifo_out = 0, fifo_mask = 7, fifo_esize = 1,
              fifo_data = [0, 0, 0, 0, 0, 0, 0, 0]\<rparr> = 8
   \<and> kfifo_in_r \<lparr>fifo_in = 0, fifo_out = 0, fifo_mask = 7, fifo_esize = 1,
              fifo_data = [0, 0, 0, 0, 0, 0, 0, 0]\<rparr> [1, 2, 3, 4, 5, 6, 7, 8] 8 1
       = Some (\<lparr>fifo_in = 0, fifo_out = 0, fifo_mask = 7, fifo_esize = 1,
              fifo_data = [0, 0, 0, 0, 0, 0, 0, 0]\<rparr>, 0)
   \<and> kfifo_wf \<lparr>fifo_in = 0, fifo_out = 0, fifo_mask = 7, fifo_esize = 1,
              fifo_data = [0, 0, 0, 0, 0, 0, 0, 0]\<rparr>
   \<and> kfifo_in_r \<lparr>fifo_in = 0, fifo_out = 0, fifo_mask = 7, fifo_esize = 1,
              fifo_data = [0, 0, 0, 0, 0, 0, 0, 0]\<rparr> [65, 66] 2 1
       = Some (\<lparr>fifo_in = 3, fifo_out = 0, fifo_mask = 7, fifo_esize = 1,
              fifo_data = [2, 65, 66, 0, 0, 0, 0, 0]\<rparr>, 2)
   \<and> kfifo_wf \<lparr>fifo_in = 7, fifo_out = 7, fifo_mask = 7, fifo_esize = 1,
              fifo_data = [0, 0, 0, 0, 0, 0, 0, 0]\<rparr>
   \<and> kfifo_in_r \<lparr>fifo_in = 7, fifo_out = 7, fifo_mask = 7, fifo_esize = 1,
              fifo_data = [0, 0, 0, 0, 0, 0, 0, 0]\<rparr> [65, 66] 2 2
       = Some (\<lparr>fifo_in = 11, fifo_out = 7, fifo_mask = 7, fifo_esize = 1,
              fifo_data = [0, 65, 66, 0, 0, 0, 0, 2]\<rparr>, 2)"
proof -
  have e: ?thesis
    by (simp add: wf_example_rec kfifo_in_r_def kfifo_unused_def kfifo_poke_n_def KFIFO_POKE_def
        kfifo_copy_in_def memcpy_def)
  from kfifo_in_r_all_or_nothing [where recsize = 1 and len = 8
      and f = "\<lparr>fifo_in = 0, fifo_out = 0, fifo_mask = 7, fifo_esize = 1,
                fifo_data = [0, 0, 0, 0, 0, 0, 0, 0]\<rparr>" and buf = "[1, 2, 3, 4, 5, 6, 7, 8]"]
    kfifo_in_r_all_or_nothing [where recsize = 2 and len = 2
      and f = "\<lparr>fifo_in = 7, fifo_out = 7, fifo_mask = 7, fifo_esize = 1,
                fifo_data = [0, 0, 0, 0, 0, 0, 0, 0]\<rparr>" and buf = "[65, 66]"]
  show ?thesis by - (rule e)
qed
text \<open>
  C10. \<open>__kfifo_in_r\<close> with a header width of 1 or 2, on a byte fifo that satisfies
  the invariants, accepts every \<open>len\<close> with \<open>len + recsize \<le> kfifo_unused\<close>,
  whatever its size: it returns \<open>len\<close>, advances \<open>in\<close> by \<open>len + recsize\<close>, and
  writes all \<open>len\<close> payload bytes, byte \<open>i\<close> at \<open>(in + recsize + i) & mask\<close>, so that
  the occupancy grows by \<open>recsize + len\<close> and the queued bytes are those queued
  before, then the \<open>recsize\<close> header bytes (the low byte of \<open>len\<close>, for a width of 2
  followed by the next byte), then the \<open>len\<close> payload bytes. The header it stores,
  decoded by \<open>__kfifo_len_r\<close> once the read index stands at the record (at once,
  when the fifo was empty), is \<open>len mod 2 ^ (8 * recsize)\<close>, which differs from
  \<open>len\<close>, the number of payload bytes written, as soon as \<open>len\<close> exceeds
  \<open>2 ^ (8 * recsize) - 1\<close>. \<open>__kfifo_max_r\<close> would clamp \<open>len\<close> to 255 or 65535;
  \<open>__kfifo_in_r\<close> does not call it.
\<close>

theorem kfifo_in_r_no_clamp:
  assumes wf: "kfifo_wf f" and es: "fifo_esize f = 1" and rs: "recsize = 1 \<or> recsize = 2"
    and fits: "unat len + unat recsize \<le> unat (kfifo_unused f)"
    and buf: "unat len \<le> length buf"
  shows "\<exists>d f' v.
           f' = f\<lparr>fifo_data := d, fifo_in := fifo_in f + len + ucast recsize\<rparr> \<and>
           kfifo_in_r f buf len recsize = Some (f', len) \<and>
           length d = length (fifo_data f) \<and>
           (\<forall>i < unat len.
              d ! unat ((fifo_in f + ucast recsize + of_nat i) AND fifo_mask f) = buf ! i) \<and>
           unat (kfifo_len f') = unat (kfifo_len f) + unat recsize + unat len \<and>
           kfifo_contents f' = kfifo_contents f
             @ (if recsize = 2 then [ucast len, ucast (drop_bit 8 len)] else [ucast len])
             @ take (unat len) buf \<and>
           kfifo_len_r (f'\<lparr>fifo_out := fifo_in f\<rparr>) recsize = Some v \<and>
           (kfifo_is_empty f \<longrightarrow> kfifo_len_r f' recsize = Some v) \<and>
           unat v = unat len mod 2 ^ (8 * unat recsize) \<and>
           (unat len > 2 ^ (8 * unat recsize) - 1 \<longrightarrow> v \<noteq> len) \<and>
           (recsize = 1 \<longrightarrow> kfifo_max_r len recsize = Some (if len > 255 then 255 else len)) \<and>
           (recsize = 2 \<longrightarrow> kfifo_max_r len recsize = Some (if len > 65535 then 65535 else len))"
proof -
  let ?c = "unat (fifo_mask f) + 1"
  let ?d = "ring_write (rec_hdr_write f len recsize) ?c
                 (unat ((fifo_in f + ucast recsize) AND fifo_mask f)) (take (unat len) buf)"
  let ?f' = "f\<lparr>fifo_data := ?d, fifo_in := fifo_in f + len + ucast recsize\<rparr>"
  let ?v = "take_bit (8 * unat recsize) len"
  note r = recsize_cases [OF rs]
  note k = kfifo_in_r_accept [OF assms]
  note d = in_r_data [OF assms]
  note q = in_r_contents [OF assms]
  have lt: "i < 2 ^ 32" if "i < unat len" for i
    using that unat_lt_32 [of len] by simp
  have p3: "unat ((fifo_in f + ucast recsize + of_nat i) AND fifo_mask f)
      = (unat (fifo_in f) + (unat recsize + i)) mod ?c" if "i < unat len" for i
    using wf_pos2 [OF wf lt [OF that], of "fifo_in f" "ucast recsize"] by (simp add: r(2))
  have m: "unat (fifo_mask (?f'\<lparr>fifo_out := fifo_in f\<rparr>))
      < length (fifo_data (?f'\<lparr>fifo_out := fifo_in f\<rparr>))"
    using wf_mask_lt_length [OF wf es] d(1) by simp
  have p1: "unat (fifo_in f AND fifo_mask f) = unat (fifo_in f) mod ?c"
    by (rule wf_and_mask [OF wf])
  have p2: "unat ((fifo_in f + 1) AND fifo_mask f) = (unat (fifo_in f) + 1) mod ?c"
    by (simp add: wf_and_mask_add [OF wf])
  have pk: "kfifo_peek_n (?f'\<lparr>fifo_out := fifo_in f\<rparr>) recsize = Some ?v"
    unfolding kfifo_peek_n_in_range [OF m] using rs d(3,4)
    by (auto simp: p1 p2 hdr_decode_1 hdr_decode_2_take_bit)
  have e: "kfifo_is_empty f \<Longrightarrow> ?f'\<lparr>fifo_out := fifo_in f\<rparr> = ?f'"
    by (simp add: kfifo_is_empty_def)
  have "?f' = f\<lparr>fifo_data := ?d, fifo_in := fifo_in f + len + ucast recsize\<rparr>" ..
  moreover note k
  moreover have "length ?d = length (fifo_data f)" by (rule d(1))
  moreover have "\<forall>i < unat len.
      ?d ! unat ((fifo_in f + ucast recsize + of_nat i) AND fifo_mask f) = buf ! i"
    using d(2) by (simp add: p3)
  moreover note q(1) q(2)
  moreover have l: "kfifo_len_r (?f'\<lparr>fifo_out := fifo_in f\<rparr>) recsize = Some ?v"
    unfolding kfifo_len_r_def by (rule pk)
  moreover have "kfifo_is_empty f \<longrightarrow> kfifo_len_r ?f' recsize = Some ?v"
    using l e by auto
  moreover have "unat ?v = unat len mod 2 ^ (8 * unat recsize)"
    by (rule unat_take_bit_32)
  moreover have "unat len > 2 ^ (8 * unat recsize) - 1 \<longrightarrow> ?v \<noteq> len"
    by (auto intro!: take_bit_neq)
  moreover have "recsize = 1 \<longrightarrow> kfifo_max_r len recsize = Some (if len > 255 then 255 else len)"
    by (simp add: kfifo_max_r_1_2)
  moreover have "recsize = 2 \<longrightarrow> kfifo_max_r len recsize = Some (if len > 65535 then 65535 else len)"
    by (simp add: kfifo_max_r_1_2)
  ultimately show ?thesis
    by (intro exI [of _ ?d] exI [of _ ?f'] exI [of _ ?v] conjI) assumption+
qed

lemma wf_example_512:
  "kfifo_wf \<lparr>fifo_in = 0, fifo_out = 0, fifo_mask = 511, fifo_esize = 1,
              fifo_data = replicate 512 0\<rparr>"
  by (auto simp: kfifo_wf_def kfifo_geom_def kfifo_len_def intro!: bexI [of _ 9])

lemma replicate_512: "replicate 512 x = x # replicate 511 x"
proof -
  have "replicate (Suc 511) x = x # replicate 511 x" by (rule replicate_Suc)
  then show ?thesis by simp
qed

theorem kfifo_in_r_no_clamp_witness:
  "kfifo_wf \<lparr>fifo_in = 0, fifo_out = 0, fifo_mask = 511, fifo_esize = 1,
              fifo_data = replicate 512 0\<rparr>
   \<and> kfifo_in_r \<lparr>fifo_in = 0, fifo_out = 0, fifo_mask = 511, fifo_esize = 1,
              fifo_data = replicate 512 0\<rparr> (replicate 300 7) 300 1
       = Some (\<lparr>fifo_in = 301, fifo_out = 0, fifo_mask = 511, fifo_esize = 1,
                fifo_data = 44 # replicate 300 7 @ replicate 211 0\<rparr>, 300)
   \<and> kfifo_contents \<lparr>fifo_in = 301, fifo_out = 0, fifo_mask = 511, fifo_esize = 1,
                fifo_data = 44 # replicate 300 7 @ replicate 211 0\<rparr> = 44 # replicate 300 7
   \<and> kfifo_len_r \<lparr>fifo_in = 301, fifo_out = 0, fifo_mask = 511, fifo_esize = 1,
                fifo_data = 44 # replicate 300 7 @ replicate 211 0\<rparr> 1 = Some 44
   \<and> kfifo_max_r 300 1 = Some 255"
proof -
  let ?f0 = "\<lparr>fifo_in = 0, fifo_out = 0, fifo_mask = 511, fifo_esize = 1,
              fifo_data = replicate 512 (0 :: u8)\<rparr>"
  let ?f1 = "\<lparr>fifo_in = 301, fifo_out = 0, fifo_mask = 511, fifo_esize = 1,
              fifo_data = 44 # replicate 300 7 @ replicate 211 (0 :: u8)\<rparr>"
  have run: "kfifo_in_r ?f0 (replicate 300 7) 300 1 = Some (?f1, 300)"
    by (simp add: kfifo_in_r_def kfifo_unused_def kfifo_poke_n_def KFIFO_POKE_def
        kfifo_copy_in_def memcpy_def replicate_512)
  have h1: "fifo_esize ?f0 = 1" by simp
  have h2: "(1 :: size_t) = 1 \<or> (1 :: size_t) = 2" by simp
  have h3: "unat (300 :: u32) + unat (1 :: size_t) \<le> unat (kfifo_unused ?f0)"
    by (simp add: kfifo_unused_def)
  have h4: "unat (300 :: u32) \<le> length (replicate 300 (7 :: u8))" by simp
  from kfifo_in_r_no_clamp [OF wf_example_512 h1 h2 h3 h4]
  obtain f' v where
      a1: "kfifo_in_r ?f0 (replicate 300 7) 300 1 = Some (f', 300)" and
      a2: "kfifo_contents f' = kfifo_contents ?f0
             @ (if (1 :: size_t) = 2 then [ucast (300 :: u32), ucast (drop_bit 8 (300 :: u32))]
                else [ucast (300 :: u32)])
             @ take (unat (300 :: u32)) (replicate 300 7)" and
      a3: "kfifo_is_empty ?f0 \<longrightarrow> kfifo_len_r f' 1 = Some v" and
      a4: "unat v = unat (300 :: u32) mod 2 ^ (8 * unat (1 :: size_t))"
    by blast
  have f': "f' = ?f1" using a1 by (simp add: run)
  have "kfifo_contents ?f0 = []"
    by (simp add: kfifo_contents_def ring_read_def kfifo_len_def)
  then have c: "kfifo_contents ?f1 = 44 # replicate 300 7"
    using a2 unfolding f' by simp
  have "unat v = 44" using a4 by simp
  then have "v = 44" by (simp add: word_unat_eq_iff)
  then have l: "kfifo_len_r ?f1 1 = Some 44"
    using a3 unfolding f' by (simp add: kfifo_is_empty_def)
  have "kfifo_max_r 300 1 = Some 255" by (simp add: kfifo_max_r_def)
  with wf_example_512 run c l show ?thesis by (intro conjI)
qed

text \<open>
  C5. \<open>__kfifo_out_r\<close> with a header width of 1 or 2. On an empty fifo it returns 0
  and changes neither the fifo nor the destination. On a byte fifo that satisfies
  the invariants, is not empty and holds at its read offset a whole record of length
  \<open>n\<close> (the header decodes to \<open>n\<close> and \<open>n + recsize\<close> elements are queued), with a
  destination of \<open>len\<close> bytes, it copies the \<open>m = min len n\<close> payload bytes found
  from \<open>(out + recsize) & mask\<close> on into the start of the destination, leaves the rest
  of the destination alone, returns \<open>m\<close>, and advances \<open>out\<close> by \<open>n + recsize\<close>
  whatever \<open>m\<close> is: the occupancy drops by \<open>n + recsize\<close>.
\<close>

theorem kfifo_out_r_discards_tail:
  assumes rs: "recsize = 1 \<or> recsize = 2"
  shows "(kfifo_is_empty f \<longrightarrow> kfifo_out_r f buf len recsize = Some (f, buf, 0))
       \<and> (kfifo_wf f \<and> fifo_esize f = 1 \<and> \<not> kfifo_is_empty f \<and>
          unat n + unat recsize \<le> unat (kfifo_len f) \<and>
          kfifo_len_r f recsize = Some n \<and> m = min len n \<and> unat m \<le> length buf \<longrightarrow>
            (\<exists>buf'. kfifo_out_r f buf len recsize
                   = Some (f\<lparr>fifo_out := fifo_out f + n + ucast recsize\<rparr>, buf', m) \<and>
               length buf' = length buf \<and>
               (\<forall>i < unat m.
                  buf' ! i = fifo_data f ! unat ((fifo_out f + ucast recsize + of_nat i) AND fifo_mask f)) \<and>
               (\<forall>j < length buf. unat m \<le> j \<longrightarrow> buf' ! j = buf ! j) \<and>
               kfifo_len (f\<lparr>fifo_out := fifo_out f + n + ucast recsize\<rparr>)
                 = kfifo_len f - (n + ucast recsize)))"
proof (intro conjI impI)
  assume "kfifo_is_empty f"
  then show "kfifo_out_r f buf len recsize = Some (f, buf, 0)"
    by (simp add: kfifo_is_empty_def kfifo_out_r_empty)
next
  assume a: "kfifo_wf f \<and> fifo_esize f = 1 \<and> \<not> kfifo_is_empty f \<and>
          unat n + unat recsize \<le> unat (kfifo_len f) \<and>
          kfifo_len_r f recsize = Some n \<and> m = min len n \<and> unat m \<le> length buf"
  then have wf: "kfifo_wf f" and es: "fifo_esize f = 1" and ne: "fifo_in f \<noteq> fifo_out f"
    and whole: "unat n + unat recsize \<le> unat (kfifo_len f)"
    and n: "kfifo_peek_n f recsize = Some n" and m: "m = min len n"
    and buf: "unat (min len n) \<le> length buf"
    by (auto simp: kfifo_is_empty_def kfifo_len_r_def)
  let ?c = "unat (fifo_mask f) + 1"
  let ?off = "unat ((fifo_out f + ucast recsize) AND fifo_mask f)"
  let ?b = "ring_read (fifo_data f) ?c ?off (unat m) @ drop (unat m) buf"
  note r = recsize_cases [OF rs]
  have mn: "unat m \<le> unat n" by (simp add: m unat_min)
  then have cap: "unat (min len n) \<le> ?c"
    using whole wf_len_le [OF wf] by (simp add: m)
  note k = kfifo_out_r_ring [OF wf es ne n cap buf]
  have cd: "?c \<le> length (fifo_data f)"
    using wf_mask_lt_length [OF wf es] by simp
  have offc: "?off < ?c"
    using byte_off_lt [OF wf_geom [OF wf], of "fifo_out f + ucast recsize"] by (simp add: es)
  have mc: "unat m \<le> ?c" using cap by (simp add: m)
  have lr: "length (ring_read (fifo_data f) ?c ?off (unat m)) = unat m"
    by (rule length_ring_read [OF offc cd mc])
  have lt: "i < 2 ^ 32" if "i < unat m" for i
    using that unat_lt_32 [of m] by simp
  have off: "?off = (unat (fifo_out f) + unat recsize) mod ?c"
    by (simp add: wf_and_mask_add [OF wf] r(2))
  have p: "unat ((fifo_out f + ucast recsize + of_nat i) AND fifo_mask f) = (?off + i) mod ?c"
    if "i < unat m" for i
    using wf_pos2 [OF wf lt [OF that], of "fifo_out f" "ucast recsize"]
    by (simp add: r(2) off mod_add_left_eq add.assoc)
  have "length ?b = length buf" using buf lr by (simp add: m)
  moreover have "\<forall>i < unat m.
      ?b ! i = fifo_data f ! unat ((fifo_out f + ucast recsize + of_nat i) AND fifo_mask f)"
    using nth_ring_read [OF offc cd mc] lr p by (simp add: nth_append)
  moreover have "\<forall>j < length buf. unat m \<le> j \<longrightarrow> ?b ! j = buf ! j"
    using lr by (simp add: nth_append)
  moreover have "kfifo_len (f\<lparr>fifo_out := fifo_out f + n + ucast recsize\<rparr>)
      = kfifo_len f - (n + ucast recsize)"
    by (simp add: kfifo_len_def)
  moreover have "kfifo_out_r f buf len recsize
      = Some (f\<lparr>fifo_out := fifo_out f + n + ucast recsize\<rparr>, ?b, m)"
    using k by (simp add: m)
  ultimately show "\<exists>buf'. kfifo_out_r f buf len recsize
                   = Some (f\<lparr>fifo_out := fifo_out f + n + ucast recsize\<rparr>, buf', m) \<and>
               length buf' = length buf \<and>
               (\<forall>i < unat m.
                  buf' ! i = fifo_data f ! unat ((fifo_out f + ucast recsize + of_nat i) AND fifo_mask f)) \<and>
               (\<forall>j < length buf. unat m \<le> j \<longrightarrow> buf' ! j = buf ! j) \<and>
               kfifo_len (f\<lparr>fifo_out := fifo_out f + n + ucast recsize\<rparr>)
                 = kfifo_len f - (n + ucast recsize)"
    by (intro exI [of _ ?b] conjI) assumption+
qed

theorem kfifo_out_r_discards_tail_witness:
  "kfifo_wf \<lparr>fifo_in = 5, fifo_out = 0, fifo_mask = 7, fifo_esize = 1,
              fifo_data = [2, 65, 66, 1, 67, 0, 0, 0]\<rparr>
   \<and> kfifo_len_r \<lparr>fifo_in = 5, fifo_out = 0, fifo_mask = 7, fifo_esize = 1,
              fifo_data = [2, 65, 66, 1, 67, 0, 0, 0]\<rparr> 1 = Some 2
   \<and> kfifo_out_r \<lparr>fifo_in = 5, fifo_out = 0, fifo_mask = 7, fifo_esize = 1,
              fifo_data = [2, 65, 66, 1, 67, 0, 0, 0]\<rparr> [0] 1 1
       = Some (\<lparr>fifo_in = 5, fifo_out = 3, fifo_mask = 7, fifo_esize = 1,
              fifo_data = [2, 65, 66, 1, 67, 0, 0, 0]\<rparr>, [65], 1)
   \<and> kfifo_len_r \<lparr>fifo_in = 5, fifo_out = 3, fifo_mask = 7, fifo_esize = 1,
              fifo_data = [2, 65, 66, 1, 67, 0, 0, 0]\<rparr> 1 = Some 1
   \<and> kfifo_out_r \<lparr>fifo_in = 5, fifo_out = 3, fifo_mask = 7, fifo_esize = 1,
              fifo_data = [2, 65, 66, 1, 67, 0, 0, 0]\<rparr> [0, 0] 2 1
       = Some (\<lparr>fifo_in = 5, fifo_out = 5, fifo_mask = 7, fifo_esize = 1,
              fifo_data = [2, 65, 66, 1, 67, 0, 0, 0]\<rparr>, [67, 0], 1)
   \<and> kfifo_out_r \<lparr>fifo_in = 5, fifo_out = 5, fifo_mask = 7, fifo_esize = 1,
              fifo_data = [2, 65, 66, 1, 67, 0, 0, 0]\<rparr> [9, 9] 2 1
       = Some (\<lparr>fifo_in = 5, fifo_out = 5, fifo_mask = 7, fifo_esize = 1,
              fifo_data = [2, 65, 66, 1, 67, 0, 0, 0]\<rparr>, [9, 9], 0)"
proof -
  have e: ?thesis
    by (simp add: wf_example_rec kfifo_out_r_def kfifo_out_copy_r_def kfifo_len_r_def
        kfifo_peek_n_def KFIFO_PEEK_def kfifo_copy_out_def memcpy_def)
  from kfifo_out_r_discards_tail [where recsize = 1 and len = 1 and n = 2 and m = 1
      and f = "\<lparr>fifo_in = 5, fifo_out = 0, fifo_mask = 7, fifo_esize = 1,
                fifo_data = [2, 65, 66, 1, 67, 0, 0, 0]\<rparr>" and buf = "[0]"]
  show ?thesis by - (rule e)
qed
text \<open>
  C1, as the code has it. On a fifo that satisfies the invariants the occupancy
  \<open>in - out\<close> is at most the capacity \<open>mask + 1\<close>, and the invariants, so this bound,
  hold again after \<open>__kfifo_in\<close>, \<open>__kfifo_out\<close>, \<open>__kfifo_in_r\<close>, \<open>kfifo_reset\<close> and
  \<open>kfifo_reset_out\<close>, and after \<open>__kfifo_out_r\<close> on an empty fifo. After
  \<open>__kfifo_out_r\<close> on a fifo that is not empty, and after \<open>__kfifo_skip_r\<close>, they hold
  again when the fifo holds a whole record at its read offset: the header there
  decodes to some \<open>n\<close> with \<open>n + recsize\<close> at most the occupancy. Each call is
  given buffers that hold the bytes it transfers and returns. (\<open>__kfifo_out_peek\<close>,
  \<open>__kfifo_out_peek_r\<close> and \<open>__kfifo_len_r\<close> write no field of the fifo: in this
  embedding they return no fifo.)
\<close>

theorem kfifo_occupancy_invariant:
  assumes wf: "kfifo_wf f"
  shows "unat (kfifo_len f) \<le> unat (kfifo_size f)
       \<and> (\<forall>src len. min (unat len) (unat (kfifo_unused f)) * unat (fifo_esize f) \<le> length src \<longrightarrow>
            (\<exists>f' r. kfifo_in f src len = Some (f', r) \<and> kfifo_wf f' \<and>
               unat (kfifo_len f') \<le> unat (kfifo_size f')))
       \<and> (\<forall>dst len. min (unat len) (unat (kfifo_len f)) * unat (fifo_esize f) \<le> length dst \<longrightarrow>
            (\<exists>f' dst' r. kfifo_out f dst len = Some (f', dst', r) \<and> kfifo_wf f' \<and>
               unat (kfifo_len f') \<le> unat (kfifo_size f')))
       \<and> (\<forall>buf len recsize.
            fifo_esize f = 1 \<and> (recsize = 1 \<or> recsize = 2) \<and> unat len \<le> length buf \<longrightarrow>
            (\<exists>f' r. kfifo_in_r f buf len recsize = Some (f', r) \<and> kfifo_wf f' \<and>
               unat (kfifo_len f') \<le> unat (kfifo_size f')))
       \<and> (\<forall>buf len recsize n.
            fifo_esize f = 1 \<and> (recsize = 1 \<or> recsize = 2) \<and>
            (kfifo_is_empty f \<or>
             (kfifo_len_r f recsize = Some n \<and> unat n + unat recsize \<le> unat (kfifo_len f) \<and>
              unat (min len n) \<le> length buf)) \<longrightarrow>
            (\<exists>f' buf' r. kfifo_out_r f buf len recsize = Some (f', buf', r) \<and> kfifo_wf f' \<and>
               unat (kfifo_len f') \<le> unat (kfifo_size f')))
       \<and> (\<forall>recsize n.
            (recsize = 1 \<or> recsize = 2) \<and>
            kfifo_len_r f recsize = Some n \<and> unat n + unat recsize \<le> unat (kfifo_len f) \<longrightarrow>
            (\<exists>f'. kfifo_skip_r f recsize = Some f' \<and> kfifo_wf f' \<and>
               unat (kfifo_len f') \<le> unat (kfifo_size f')))
       \<and> kfifo_wf (kfifo_reset f) \<and> unat (kfifo_len (kfifo_reset f)) \<le> unat (kfifo_size (kfifo_reset f))
       \<and> kfifo_wf (kfifo_reset_out f)
       \<and> unat (kfifo_len (kfifo_reset_out f)) \<le> unat (kfifo_size (kfifo_reset_out f))"
proof (intro conjI allI impI)
  show "unat (kfifo_len f) \<le> unat (kfifo_size f)" by (rule wf_size [OF wf])
  show "kfifo_wf (kfifo_reset f)" by (rule wf_reset [OF wf])
  then show "unat (kfifo_len (kfifo_reset f)) \<le> unat (kfifo_size (kfifo_reset f))"
    by (rule wf_size)
  show "kfifo_wf (kfifo_reset_out f)" by (rule wf_reset_out [OF wf])
  then show "unat (kfifo_len (kfifo_reset_out f)) \<le> unat (kfifo_size (kfifo_reset_out f))"
    by (rule wf_size)
next
  fix src :: "u8 list" and len :: u32
  assume "min (unat len) (unat (kfifo_unused f)) * unat (fifo_esize f) \<le> length src"
  from kfifo_in_contents [OF wf this]
  show "\<exists>f' r. kfifo_in f src len = Some (f', r) \<and> kfifo_wf f' \<and>
               unat (kfifo_len f') \<le> unat (kfifo_size f')"
    using wf_size by blast
next
  fix dst :: "u8 list" and len :: u32
  assume "min (unat len) (unat (kfifo_len f)) * unat (fifo_esize f) \<le> length dst"
  from kfifo_out_contents [OF wf this]
  show "\<exists>f' dst' r. kfifo_out f dst len = Some (f', dst', r) \<and> kfifo_wf f' \<and>
               unat (kfifo_len f') \<le> unat (kfifo_size f')"
    using wf_size by blast
next
  fix buf :: "u8 list" and len :: u32 and recsize :: size_t
  assume "fifo_esize f = 1 \<and> (recsize = 1 \<or> recsize = 2) \<and> unat len \<le> length buf"
  then have "\<exists>f' r. kfifo_in_r f buf len recsize = Some (f', r) \<and> kfifo_wf f'"
    using wf_in_r [OF wf] by blast
  then show "\<exists>f' r. kfifo_in_r f buf len recsize = Some (f', r) \<and> kfifo_wf f' \<and>
               unat (kfifo_len f') \<le> unat (kfifo_size f')"
    using wf_size by blast
next
  fix buf :: "u8 list" and len n :: u32 and recsize :: size_t
  assume "fifo_esize f = 1 \<and> (recsize = 1 \<or> recsize = 2) \<and>
            (kfifo_is_empty f \<or>
             (kfifo_len_r f recsize = Some n \<and> unat n + unat recsize \<le> unat (kfifo_len f) \<and>
              unat (min len n) \<le> length buf))"
  then have "\<exists>f' buf' r. kfifo_out_r f buf len recsize = Some (f', buf', r) \<and> kfifo_wf f'"
    using wf_out_r [OF wf, of recsize n len buf] by blast
  then show "\<exists>f' buf' r. kfifo_out_r f buf len recsize = Some (f', buf', r) \<and> kfifo_wf f' \<and>
               unat (kfifo_len f') \<le> unat (kfifo_size f')"
    using wf_size by blast
next
  fix recsize :: size_t and n :: u32
  assume "(recsize = 1 \<or> recsize = 2) \<and>
            kfifo_len_r f recsize = Some n \<and> unat n + unat recsize \<le> unat (kfifo_len f)"
  then have "\<exists>f'. kfifo_skip_r f recsize = Some f' \<and> kfifo_wf f'"
    using wf_skip_r [OF wf, of recsize n] by blast
  then show "\<exists>f'. kfifo_skip_r f recsize = Some f' \<and> kfifo_wf f' \<and>
               unat (kfifo_len f') \<le> unat (kfifo_size f')"
    using wf_size by blast
qed

theorem kfifo_occupancy_invariant_witness:
  "kfifo_wf \<lparr>fifo_in = 5, fifo_out = 0, fifo_mask = 7, fifo_esize = 1,
              fifo_data = [2, 65, 66, 1, 67, 0, 0, 0]\<rparr>
   \<and> kfifo_len_r \<lparr>fifo_in = 5, fifo_out = 0, fifo_mask = 7, fifo_esize = 1,
              fifo_data = [2, 65, 66, 1, 67, 0, 0, 0]\<rparr> 1 = Some 2
   \<and> kfifo_len \<lparr>fifo_in = 5, fifo_out = 0, fifo_mask = 7, fifo_esize = 1,
              fifo_data = [2, 65, 66, 1, 67, 0, 0, 0]\<rparr> = 5
   \<and> kfifo_skip_r \<lparr>fifo_in = 5, fifo_out = 0, fifo_mask = 7, fifo_esize = 1,
              fifo_data = [2, 65, 66, 1, 67, 0, 0, 0]\<rparr> 1
       = Some \<lparr>fifo_in = 5, fifo_out = 3, fifo_mask = 7, fifo_esize = 1,
              fifo_data = [2, 65, 66, 1, 67, 0, 0, 0]\<rparr>
   \<and> kfifo_wf \<lparr>fifo_in = 5, fifo_out = 3, fifo_mask = 7, fifo_esize = 1,
              fifo_data = [2, 65, 66, 1, 67, 0, 0, 0]\<rparr>
   \<and> kfifo_len \<lparr>fifo_in = 5, fifo_out = 3, fifo_mask = 7, fifo_esize = 1,
              fifo_data = [2, 65, 66, 1, 67, 0, 0, 0]\<rparr> = 2
   \<and> kfifo_size \<lparr>fifo_in = 5, fifo_out = 3, fifo_mask = 7, fifo_esize = 1,
              fifo_data = [2, 65, 66, 1, 67, 0, 0, 0]\<rparr> = 8"
proof -
  let ?f = "\<lparr>fifo_in = 5, fifo_out = 0, fifo_mask = 7, fifo_esize = 1,
              fifo_data = [2, 65, 66, 1, 67, 0, 0, 0]\<rparr>"
  let ?f' = "\<lparr>fifo_in = 5, fifo_out = 3, fifo_mask = 7, fifo_esize = 1,
              fifo_data = [2, 65, 66, 1, 67, 0, 0, 0]\<rparr>"
  have n: "kfifo_len_r ?f 1 = Some 2"
    by (simp add: kfifo_len_r_def kfifo_peek_n_def KFIFO_PEEK_def)
  have l: "kfifo_len ?f = 5" "kfifo_len ?f' = 2" "kfifo_size ?f' = 8"
    by (simp_all add: kfifo_len_def kfifo_size_def)
  have s: "kfifo_skip_r ?f 1 = Some ?f'"
    by (simp add: kfifo_skip_r_def kfifo_peek_n_def KFIFO_PEEK_def)
  have "\<exists>f'. kfifo_skip_r ?f 1 = Some f' \<and> kfifo_wf f'"
    using kfifo_occupancy_invariant [OF wf_example_rec(3)] n l(1) by auto
  then have "kfifo_wf ?f'" by (simp add: s)
  then show ?thesis using n l s wf_example_rec(3) by simp
qed

text \<open>
  C1 as stated fails, in two ways. A fifo of 8 bytes is initialised over a zeroed
  buffer; \<open>__kfifo_skip_r\<close> with a header width of 1 then reads the header 0 and
  moves \<open>out\<close> to 1 while \<open>in\<close> is 0: the occupancy \<open>in - out\<close> is \<open>2^32 - 1\<close>,
  the capacity 8. And a fifo of 512 bytes is initialised over a zeroed buffer and
  given, with a header width of 1, a record of 256 bytes that begins 0, 255: the
  record is accepted with the header \<open>256 mod 256 = 0\<close>. Three \<open>__kfifo_skip_r\<close>
  calls, each on a fifo that is not empty (257, 256 and 255 bytes queued), then read
  the headers 0, 0 and 255 and move \<open>out\<close> to 1, 2 and 258 while \<open>in\<close> is 257: the
  occupancy is \<open>2^32 - 1\<close>, the capacity 512.
\<close>

theorem kfifo_skip_r_breaks_occupancy:
  "kfifo_init \<lparr>fifo_in = 0, fifo_out = 0, fifo_mask = 0, fifo_esize = 0, fifo_data = []\<rparr>
       [0, 0, 0, 0, 0, 0, 0, 0] 8 1
     = Some (\<lparr>fifo_in = 0, fifo_out = 0, fifo_mask = 7, fifo_esize = 1,
               fifo_data = [0, 0, 0, 0, 0, 0, 0, 0]\<rparr>, Inr ())
   \<and> kfifo_skip_r \<lparr>fifo_in = 0, fifo_out = 0, fifo_mask = 7, fifo_esize = 1,
               fifo_data = [0, 0, 0, 0, 0, 0, 0, 0]\<rparr> 1
     = Some \<lparr>fifo_in = 0, fifo_out = 1, fifo_mask = 7, fifo_esize = 1,
               fifo_data = [0, 0, 0, 0, 0, 0, 0, 0]\<rparr>
   \<and> unat (kfifo_len \<lparr>fifo_in = 0, fifo_out = 1, fifo_mask = 7, fifo_esize = 1,
               fifo_data = [0, 0, 0, 0, 0, 0, 0, 0]\<rparr>) = 4294967295
   \<and> unat (kfifo_size \<lparr>fifo_in = 0, fifo_out = 1, fifo_mask = 7, fifo_esize = 1,
               fifo_data = [0, 0, 0, 0, 0, 0, 0, 0]\<rparr>) = 8
   \<and> kfifo_init \<lparr>fifo_in = 0, fifo_out = 0, fifo_mask = 0, fifo_esize = 0, fifo_data = []\<rparr>
       (replicate 512 0) 512 1
     = Some (\<lparr>fifo_in = 0, fifo_out = 0, fifo_mask = 511, fifo_esize = 1,
               fifo_data = replicate 512 0\<rparr>, Inr ())
   \<and> kfifo_in_r \<lparr>fifo_in = 0, fifo_out = 0, fifo_mask = 511, fifo_esize = 1,
               fifo_data = replicate 512 0\<rparr> (0 # 255 # replicate 254 0) 256 1
     = Some (\<lparr>fifo_in = 257, fifo_out = 0, fifo_mask = 511, fifo_esize = 1,
               fifo_data = 0 # 0 # 255 # replicate 509 0\<rparr>, 256)
   \<and> kfifo_skip_r \<lparr>fifo_in = 257, fifo_out = 0, fifo_mask = 511, fifo_esize = 1,
               fifo_data = 0 # 0 # 255 # replicate 509 0\<rparr> 1
     = Some \<lparr>fifo_in = 257, fifo_out = 1, fifo_mask = 511, fifo_esize = 1,
               fifo_data = 0 # 0 # 255 # replicate 509 0\<rparr>
   \<and> kfifo_skip_r \<lparr>fifo_in = 257, fifo_out = 1, fifo_mask = 511, fifo_esize = 1,
               fifo_data = 0 # 0 # 255 # replicate 509 0\<rparr> 1
     = Some \<lparr>fifo_in = 257, fifo_out = 2, fifo_mask = 511, fifo_esize = 1,
               fifo_data = 0 # 0 # 255 # replicate 509 0\<rparr>
   \<and> kfifo_skip_r \<lparr>fifo_in = 257, fifo_out = 2, fifo_mask = 511, fifo_esize = 1,
               fifo_data = 0 # 0 # 255 # replicate 509 0\<rparr> 1
     = Some \<lparr>fifo_in = 257, fifo_out = 258, fifo_mask = 511, fifo_esize = 1,
               fifo_data = 0 # 0 # 255 # replicate 509 0\<rparr>
   \<and> unat (kfifo_len \<lparr>fifo_in = 257, fifo_out = 258, fifo_mask = 511, fifo_esize = 1,
               fifo_data = 0 # 0 # 255 # replicate 509 0\<rparr>) = 4294967295
   \<and> unat (kfifo_size \<lparr>fifo_in = 257, fifo_out = 258, fifo_mask = 511, fifo_esize = 1,
               fifo_data = 0 # 0 # 255 # replicate 509 0\<rparr>) = 512"
proof (intro conjI)
  show "kfifo_in_r \<lparr>fifo_in = 0, fifo_out = 0, fifo_mask = 511, fifo_esize = 1,
               fifo_data = replicate 512 0\<rparr> (0 # 255 # replicate 254 0) 256 1
     = Some (\<lparr>fifo_in = 257, fifo_out = 0, fifo_mask = 511, fifo_esize = 1,
               fifo_data = 0 # 0 # 255 # replicate 509 0\<rparr>, 256)"
    by (simp add: kfifo_in_r_def kfifo_unused_def kfifo_poke_n_def KFIFO_POKE_def
          kfifo_copy_in_def memcpy_def)
      (simp add: list_eq_iff_nth_eq nth_append nth_Cons')
qed (simp_all add: kfifo_init_def rounddown_pow_of_two_def kfifo_skip_r_def kfifo_peek_n_def
       KFIFO_PEEK_def kfifo_len_def kfifo_size_def unsigned_minus_1_eq_mask mask_eq_exp_minus_1)

end
